theory Spec2Isabelle
  imports Complex_Main
begin

section \<open>Strings\<close>

text \<open>
  A JavaScript string is a sequence of code units. The embedding uses \<open>string\<close>, whose
  characters are the code units U+0000 to U+00FF; on this range the tables below
  (\<open>\w\<close>, \<open>\s\<close>, \<open>toLowerCase\<close>, the canonicalisation of the \<open>i\<close> flag) are those of
  ECMAScript. Versions, counts and match offsets are natural numbers. A number that a
  request supplies (\<open>occurrence\<close>, \<open>startIndex\<close>, \<open>endIndex\<close>, \<open>maxResults\<close>,
  \<open>contextSize\<close>) is a finite double, which the engine compares without validating; it is
  the real number that the double denotes, whole or not.
\<close>

definition isWordChar :: "char \<Rightarrow> bool" where
  "isWordChar c =
     (c \<in> set ''abcdefghijklmnopqrstuvwxyzABCDEFGHIJKLMNOPQRSTUVWXYZ0123456789_'')"

definition isWhiteSpace :: "char \<Rightarrow> bool" where
  "isWhiteSpace c = ((of_char c :: nat) \<in> {9, 10, 11, 12, 13, 32, 160})"

definition toLowerCaseUnit :: "char \<Rightarrow> char" where
  "toLowerCaseUnit c = (let n = (of_char c :: nat) in
     if (65 \<le> n \<and> n \<le> 90) \<or> (192 \<le> n \<and> n \<le> 214) \<or> (216 \<le> n \<and> n \<le> 222)
     then char_of (n + 32) else c)"

definition toLowerCase :: "string \<Rightarrow> string" where
  "toLowerCase s = map toLowerCaseUnit s"

text \<open>\<open>Canonicalize\<close> of a regular expression with the \<open>i\<close> flag and without \<open>u\<close>: the
  upper-case mapping of one code unit. U+00B5 and U+00FF map outside the range and
  U+00DF has no single-unit upper case; each of them stays apart from every other unit.\<close>

definition canonicalize :: "char \<Rightarrow> char" where
  "canonicalize c = (let n = (of_char c :: nat) in
     if (97 \<le> n \<and> n \<le> 122) \<or> (224 \<le> n \<and> n \<le> 246) \<or> (248 \<le> n \<and> n \<le> 254)
     then char_of (n - 32) else c)"

text \<open>\<open>s.substring(a, b)\<close>: both ends clamped to the string, swapped when out of order.\<close>

definition substring :: "string \<Rightarrow> nat \<Rightarrow> nat \<Rightarrow> string" where
  "substring s a b =
     (let n = length s; a' = min a n; b' = min b n; lo = min a' b'; hi = max a' b'
      in take (hi - lo) (drop lo s))"

text \<open>\<open>s.substring(a)\<close>.\<close>

definition substringFrom :: "string \<Rightarrow> nat \<Rightarrow> string" where
  "substringFrom s a = drop (min a (length s)) s"

text \<open>\<open>xs[r]\<close> for a number \<open>r\<close>: the element at \<open>r\<close> when \<open>r\<close> is a whole number and an
  index of the array, \<open>undefined\<close> otherwise.\<close>

definition isIntegral :: "real \<Rightarrow> bool" where
  "isIntegral r = (of_int \<lfloor>r\<rfloor> = r)"

definition arrayGet :: "'a list \<Rightarrow> real \<Rightarrow> 'a option" where
  "arrayGet xs r =
     (if isIntegral r \<and> 0 \<le> r \<and> r < real (length xs) then Some (xs ! nat \<lfloor>r\<rfloor>) else None)"

text \<open>\<open>ToIntegerOrInfinity\<close> of a finite number: truncation towards zero.\<close>

definition toInteger :: "real \<Rightarrow> int" where
  "toInteger r = (if 0 \<le> r then \<lfloor>r\<rfloor> else \<lceil>r\<rceil>)"

section \<open>Literal regular expressions\<close>

text \<open>
  The engine builds every pattern from escaped user text, optionally between two
  \<open>\b\<close> assertions. \<open>parsePattern\<close> reads this fragment of the pattern syntax: an
  unescaped ordinary character, an escaped syntax character, and \<open>\b\<close>. Anything else
  is \<open>None\<close>: the constructor would raise, or build a pattern outside the fragment.
\<close>

definition isSyntaxChar :: "char \<Rightarrow> bool" where
  "isSyntaxChar c = (c \<in> set ''.*+?^${}()|[]'' \<or> c = CHR 0x5C)"

definition escapeRegex :: "string \<Rightarrow> string" where
  "escapeRegex str = concat (map (\<lambda>c. if isSyntaxChar c then [CHR 0x5C, c] else [c]) str)"

datatype atom = Lit char | WordBoundary

record regexp =
  source :: "atom list"
  ignoreCase :: bool
  global :: bool

fun parsePattern :: "string \<Rightarrow> atom list option" where
  "parsePattern [] = Some []"
| "parsePattern [c] = (if isSyntaxChar c then None else Some [Lit c])"
| "parsePattern (c # d # ds) =
     (if c = CHR 0x5C then
        (if d = CHR ''b'' then map_option ((#) WordBoundary) (parsePattern ds)
         else if isSyntaxChar d then map_option ((#) (Lit d)) (parsePattern ds)
         else None)
      else if isSyntaxChar c then None
      else map_option ((#) (Lit c)) (parsePattern (d # ds)))"

definition newRegExp :: "string \<Rightarrow> string \<Rightarrow> regexp option" where
  "newRegExp pattern flags =
     map_option (\<lambda>as. \<lparr>source = as, ignoreCase = (CHR ''i'' \<in> set flags),
                        global = (CHR ''g'' \<in> set flags)\<rparr>)
       (parsePattern pattern)"

definition unitEq :: "bool \<Rightarrow> char \<Rightarrow> char \<Rightarrow> bool" where
  "unitEq ic a b = (if ic then canonicalize a = canonicalize b else a = b)"

definition wordBefore :: "string \<Rightarrow> nat \<Rightarrow> bool" where
  "wordBefore s i = (0 < i \<and> i \<le> length s \<and> isWordChar (s ! (i - 1)))"

definition wordAt :: "string \<Rightarrow> nat \<Rightarrow> bool" where
  "wordAt s i = (i < length s \<and> isWordChar (s ! i))"

definition atWordBoundary :: "string \<Rightarrow> nat \<Rightarrow> bool" where
  "atWordBoundary s i = (wordBefore s i \<noteq> wordAt s i)"

text \<open>The matcher at one start offset; the result is the end offset of the match.\<close>

fun matchAtoms :: "bool \<Rightarrow> string \<Rightarrow> nat \<Rightarrow> atom list \<Rightarrow> nat option" where
  "matchAtoms ic s i [] = Some i"
| "matchAtoms ic s i (Lit c # as) =
     (if i < length s \<and> unitEq ic (s ! i) c then matchAtoms ic s (Suc i) as else None)"
| "matchAtoms ic s i (WordBoundary # as) =
     (if atWordBoundary s i then matchAtoms ic s i as else None)"

text \<open>\<open>RegExpBuiltinExec\<close> from \<open>lastIndex\<close>: the first offset at or after it where the
  pattern matches, with the end of the match; \<open>None\<close> is \<open>null\<close>.\<close>

function regExpExec :: "regexp \<Rightarrow> string \<Rightarrow> nat \<Rightarrow> (nat \<times> nat) option" where
  "regExpExec R S lastIndex =
     (if length S < lastIndex then None
      else (case matchAtoms (ignoreCase R) S lastIndex (source R) of
              Some e \<Rightarrow> Some (lastIndex, e)
            | None \<Rightarrow> regExpExec R S (Suc lastIndex)))"
  by pat_completeness auto
termination
  by (relation "measure (\<lambda>(R, S, i). Suc (length S) - i)") auto

declare regExpExec.simps [simp del]

lemma matchAtoms_bounds:
  "matchAtoms ic s i as = Some e \<Longrightarrow> i \<le> length s \<Longrightarrow> i \<le> e \<and> e \<le> length s"
proof (induction as arbitrary: i)
  case Nil
  then show ?case by simp
next
  case (Cons a as)
  show ?case
  proof (cases a)
    case (Lit c)
    with Cons.prems have "matchAtoms ic s (Suc i) as = Some e" and "Suc i \<le> length s"
      by (auto split: if_splits)
    from Cons.IH [OF this] show ?thesis by simp
  next
    case WordBoundary
    with Cons.prems have "matchAtoms ic s i as = Some e"
      by (auto split: if_splits)
    from Cons.IH [OF this Cons.prems(2)] show ?thesis .
  qed
qed

lemma regExpExec_bounds:
  "regExpExec R S k = Some (i, e) \<Longrightarrow> k \<le> i \<and> i \<le> e \<and> e \<le> length S"
proof (induction R S k rule: regExpExec.induct)
  case (1 R S lastIndex)
  show ?case
  proof (cases "length S < lastIndex")
    case True
    with "1.prems" show ?thesis by (simp add: regExpExec.simps)
  next
    case False
    show ?thesis
    proof (cases "matchAtoms (ignoreCase R) S lastIndex (source R)")
      case None
      with False "1.prems" have "regExpExec R S (Suc lastIndex) = Some (i, e)"
        by (simp add: regExpExec.simps [of R S lastIndex])
      from "1.IH" [OF False None this] show ?thesis by simp
    next
      case (Some e')
      with False "1.prems" have "i = lastIndex" and "e = e'"
        by (simp_all add: regExpExec.simps [of R S lastIndex])
      with Some False matchAtoms_bounds [of "ignoreCase R" S lastIndex "source R" e']
      show ?thesis by simp
    qed
  qed
qed

text \<open>The loop shared by \<open>String.prototype.match\<close> and \<open>String.prototype.replace\<close> on a
  global pattern: \<open>exec\<close> until \<open>null\<close>, stepping one unit past an empty match.\<close>

function regExpMatchAll :: "regexp \<Rightarrow> string \<Rightarrow> nat \<Rightarrow> (nat \<times> nat) list" where
  "regExpMatchAll R S lastIndex =
     (case regExpExec R S lastIndex of
        None \<Rightarrow> []
      | Some (i, e) \<Rightarrow> (i, e) # regExpMatchAll R S (if e = i then Suc e else e))"
  by pat_completeness auto
termination
proof (relation "measure (\<lambda>(R, S, k). Suc (length S) - k)")
  show "wf (measure (\<lambda>(R, S, k). Suc (length S) - k))" by simp
next
  fix R :: regexp and S lastIndex x2 i e
  assume "regExpExec R S lastIndex = Some x2" and "(i, e) = x2"
  then have "regExpExec R S lastIndex = Some (i, e)" by simp
  from regExpExec_bounds [OF this]
  show "((R, S, if e = i then Suc e else e), R, S, lastIndex)
          \<in> measure (\<lambda>(R, S, k). Suc (length S) - k)"
    by auto
qed

declare regExpMatchAll.simps [simp del]

section \<open>Change engine\<close>

record change =
  searchText :: string
  replaceText :: string
  matchCase :: "bool option"
  matchWholeWord :: "bool option"
  replaceAll :: "bool option"
  occurrence :: "real option"
  startIndex :: "real option"
  endIndex :: "real option"
  beforeContext :: "string option"
  afterContext :: "string option"

record changeResult =
  resSearchText :: string
  resReplaceText :: string
  matchesFound :: nat
  replacementsMade :: nat
  positions :: "nat list option"

record regmatch =
  index :: nat
  mlength :: nat
  mtext :: string

definition buildPattern :: "change \<Rightarrow> regexp option" where
  "buildPattern change =
     (let matchCase' = (case matchCase change of None \<Rightarrow> True | Some b \<Rightarrow> b);
          matchWholeWord' = (case matchWholeWord change of None \<Rightarrow> False | Some b \<Rightarrow> b);
          pattern = escapeRegex (searchText change);
          pattern = (if matchWholeWord'
                     then [CHR 0x5C, CHR ''b''] @ pattern @ [CHR 0x5C, CHR ''b'']
                     else pattern);
          flags = (if matchCase' then ''g'' else ''gi'')
      in newRegExp pattern flags)"

definition usesAdvancedTargeting :: "change \<Rightarrow> bool" where
  "usesAdvancedTargeting change =
     (startIndex change \<noteq> None \<or>
      endIndex change \<noteq> None \<or>
      beforeContext change \<noteq> None \<or>
      afterContext change \<noteq> None \<or>
      (replaceAll change = Some False \<and> occurrence change \<noteq> None))"

text \<open>The functions of this section return \<open>None\<close> when the call throws.\<close>

text \<open>\<open>GetSubstitution\<close> for a pattern without capture groups: \<open>$$\<close>, \<open>$&\<close>, the
  text before the match and the text after it are substituted; a \<open>$\<close> before anything
  else stands for itself.\<close>

fun getSubstitution :: "string \<Rightarrow> string \<Rightarrow> nat \<Rightarrow> string \<Rightarrow> string" where
  "getSubstitution matched str position [] = []"
| "getSubstitution matched str position [c] = [c]"
| "getSubstitution matched str position (c # d # rest) =
     (if c = CHR ''$'' then
        (if d = CHR ''$'' then CHR ''$'' # getSubstitution matched str position rest
         else if d = CHR ''&'' then matched @ getSubstitution matched str position rest
         else if d = CHR 0x60 then
           substring str 0 position @ getSubstitution matched str position rest
         else if d = CHR 0x27 then
           substringFrom str (position + length matched)
             @ getSubstitution matched str position rest
         else c # getSubstitution matched str position (d # rest))
      else c # getSubstitution matched str position (d # rest))"

text \<open>The result loop of \<open>RegExp.prototype[Symbol.replace]\<close> with a string replacement.\<close>

fun replaceLoop :: "string \<Rightarrow> string \<Rightarrow> (nat \<times> nat) list \<Rightarrow> nat \<Rightarrow> string \<Rightarrow> string" where
  "replaceLoop S replaceValue [] nextSourcePosition accumulatedResult =
     accumulatedResult @ substringFrom S nextSourcePosition"
| "replaceLoop S replaceValue ((position, e) # results) nextSourcePosition accumulatedResult =
     (if nextSourcePosition \<le> position then
        replaceLoop S replaceValue results e
          (accumulatedResult @ substring S nextSourcePosition position
             @ getSubstitution (substring S position e) S position replaceValue)
      else replaceLoop S replaceValue results nextSourcePosition accumulatedResult)"

text \<open>\<open>content.match(pattern)\<close>: the matched texts, or \<open>null\<close> when there is none.\<close>

definition js_match :: "string \<Rightarrow> regexp \<Rightarrow> string list option" where
  "js_match S R =
     (if global R then
        (case regExpMatchAll R S 0 of
           [] \<Rightarrow> None
         | r # rs \<Rightarrow> Some (map (\<lambda>(i, e). substring S i e) (r # rs)))
      else
        (case regExpExec R S 0 of
           None \<Rightarrow> None
         | Some (i, e) \<Rightarrow> Some [substring S i e]))"

text \<open>\<open>content.replace(pattern, replaceValue)\<close>.\<close>

definition js_replace :: "string \<Rightarrow> regexp \<Rightarrow> string \<Rightarrow> string" where
  "js_replace S R replaceValue =
     (let results = (if global R then regExpMatchAll R S 0
                     else (case regExpExec R S 0 of None \<Rightarrow> [] | Some r \<Rightarrow> [r]))
      in replaceLoop S replaceValue results 0 [])"

definition applyFastPath :: "string \<Rightarrow> change \<Rightarrow> (string \<times> changeResult) option" where
  "applyFastPath content change =
     (case buildPattern change of
        None \<Rightarrow> None
      | Some pattern \<Rightarrow>
          (let replaceAll' = (case replaceAll change of None \<Rightarrow> True | Some b \<Rightarrow> b);
               matches = js_match content pattern;
               matchesFound' = (case matches of None \<Rightarrow> 0 | Some ms \<Rightarrow> length ms)
           in if matchesFound' = 0 then
                Some (content,
                  \<lparr>resSearchText = searchText change, resReplaceText = replaceText change,
                   matchesFound = 0, replacementsMade = 0, positions = None\<rparr>)
              else if replaceAll' then
                Some (js_replace content pattern (replaceText change),
                  \<lparr>resSearchText = searchText change, resReplaceText = replaceText change,
                   matchesFound = matchesFound', replacementsMade = matchesFound',
                   positions = None\<rparr>)
              else
                Some (js_replace content (pattern\<lparr>global := False\<rparr>) (replaceText change),
                  \<lparr>resSearchText = searchText change, resReplaceText = replaceText change,
                   matchesFound = matchesFound', replacementsMade = 1, positions = None\<rparr>)))"

text \<open>The loop of \<open>findAllMatches\<close>; every pattern it is given carries the \<open>g\<close> flag, so
  \<open>exec\<close> resumes at the end of the previous match.\<close>

function findAllMatches_loop :: "string \<Rightarrow> regexp \<Rightarrow> nat \<Rightarrow> regmatch list" where
  "findAllMatches_loop content searchPattern lastIndex =
     (case regExpExec searchPattern content lastIndex of
        None \<Rightarrow> []
      | Some (i, e) \<Rightarrow>
          \<lparr>index = i, mlength = e - i, mtext = substring content i e\<rparr>
            # findAllMatches_loop content searchPattern (if e - i = 0 then Suc e else e))"
  by pat_completeness auto
termination
proof (relation "measure (\<lambda>(content, R, k). Suc (length content) - k)")
  show "wf (measure (\<lambda>(content, R, k). Suc (length content) - k))" by simp
next
  fix content and searchPattern :: regexp and lastIndex x2 i e
  assume "regExpExec searchPattern content lastIndex = Some x2" and "(i, e) = x2"
  then have "regExpExec searchPattern content lastIndex = Some (i, e)" by simp
  from regExpExec_bounds [OF this]
  show "((content, searchPattern, if e - i = 0 then Suc e else e), content, searchPattern, lastIndex)
          \<in> measure (\<lambda>(content, R, k). Suc (length content) - k)"
    by auto
qed

declare findAllMatches_loop.simps [simp del]

definition findAllMatches :: "string \<Rightarrow> regexp \<Rightarrow> regmatch list" where
  "findAllMatches content pattern = findAllMatches_loop content pattern 0"

definition validateContext ::
  "string \<Rightarrow> nat \<Rightarrow> nat \<Rightarrow> string option \<Rightarrow> string option \<Rightarrow> bool" where
  "validateContext content matchIndex matchLength beforeContext' afterContext' =
     (let beforeOk =
            (case beforeContext' of
               None \<Rightarrow> True
             | Some bc \<Rightarrow>
                 if bc = [] then True
                 else if matchIndex < length bc then False
                 else substring content (matchIndex - length bc) matchIndex = bc);
          afterOk =
            (case afterContext' of
               None \<Rightarrow> True
             | Some ac \<Rightarrow>
                 if ac = [] then True
                 else if length content < matchIndex + matchLength + length ac then False
                 else substring content (matchIndex + matchLength)
                        (matchIndex + matchLength + length ac) = ac)
      in beforeOk \<and> afterOk)"

definition isInRange :: "nat \<Rightarrow> nat \<Rightarrow> real option \<Rightarrow> real option \<Rightarrow> bool" where
  "isInRange matchIndex matchLength startIndex' endIndex' =
     (if startIndex' = None \<and> endIndex' = None then True
      else
        (let matchEnd = matchIndex + matchLength in
         if (case startIndex' of None \<Rightarrow> False | Some s \<Rightarrow> real matchIndex < s) then False
         else if (case endIndex' of None \<Rightarrow> False | Some e \<Rightarrow> e < real matchEnd) then False
         else True))"

text \<open>The phases of \<open>applySlowPath\<close>: the filter, the choice of the matches to replace,
  their sort in descending order of offset, and the splice loop. The array of chosen
  matches can hold \<open>undefined\<close>: \<open>eligibleMatches[occurrence - 1]\<close> for an occurrence that is
  not a whole number. \<open>sort\<close> moves \<open>undefined\<close> to the end, and the splice loop throws a
  \<open>TypeError\<close> when it reads \<open>match.index\<close> of it; a call that throws yields \<open>None\<close>.\<close>

definition eligibleMatches :: "string \<Rightarrow> change \<Rightarrow> regmatch list \<Rightarrow> regmatch list" where
  "eligibleMatches content change allMatches =
     filter (\<lambda>m.
        if \<not> isInRange (index m) (mlength m) (startIndex change) (endIndex change) then False
        else if \<not> validateContext content (index m) (mlength m)
                   (beforeContext change) (afterContext change) then False
        else True) allMatches"

definition matchesToReplace :: "change \<Rightarrow> regmatch list \<Rightarrow> regmatch option list" where
  "matchesToReplace change eligible =
     (let replaceAll' = (case replaceAll change of None \<Rightarrow> True | Some b \<Rightarrow> b) in
      if startIndex change \<noteq> None \<or> endIndex change \<noteq> None then map Some eligible
      else if \<not> replaceAll' \<and> (case occurrence change of None \<Rightarrow> False | Some k \<Rightarrow> 0 < k) then
        (case occurrence change of
           None \<Rightarrow> []
         | Some k \<Rightarrow> if k \<le> real (length eligible) then [arrayGet eligible (k - 1)] else [])
      else if \<not> replaceAll' then [arrayGet eligible 0]
      else map Some eligible)"

text \<open>\<open>ms.sort((a, b) => b.index - a.index)\<close>: the defined entries in descending order of
  offset (the sort is stable), then the undefined ones.\<close>

definition sortByIndexDescending :: "regmatch option list \<Rightarrow> regmatch option list" where
  "sortByIndexDescending ms =
     map Some (sort_key (\<lambda>m. - int (index m)) (List.map_filter (\<lambda>m. m) ms))
       @ filter (\<lambda>m. m = None) ms"

fun spliceLoop ::
  "string \<Rightarrow> regmatch option list \<Rightarrow> string \<times> nat list \<times> nat \<Rightarrow>
     (string \<times> nat list \<times> nat) option" where
  "spliceLoop replaceText' [] st = Some st"
| "spliceLoop replaceText' (None # ms) st = None"
| "spliceLoop replaceText' (Some m # ms) (newContent, positions', replacementsMade') =
     spliceLoop replaceText' ms
       (substring newContent 0 (index m) @ replaceText'
          @ substringFrom newContent (index m + mlength m),
        index m # positions',
        replacementsMade' + 1)"

definition applySlowPath :: "string \<Rightarrow> change \<Rightarrow> (string \<times> changeResult) option" where
  "applySlowPath content change =
     (case buildPattern change of
        None \<Rightarrow> None
      | Some pattern \<Rightarrow>
          (let allMatches = findAllMatches content pattern;
               matchesFound' = length allMatches;
               eligible = eligibleMatches content change allMatches
           in case (if 0 < length eligible then
                      spliceLoop (replaceText change)
                        (sortByIndexDescending (matchesToReplace change eligible))
                        (content, [], 0)
                    else Some (content, [], 0)) of
                None \<Rightarrow> None
              | Some (newContent, positions', replacementsMade') \<Rightarrow>
                  Some (newContent,
                    \<lparr>resSearchText = searchText change, resReplaceText = replaceText change,
                     matchesFound = matchesFound', replacementsMade = replacementsMade',
                     positions = (if 0 < length positions' then Some positions' else None)\<rparr>)))"

definition applySingleChange :: "string \<Rightarrow> change \<Rightarrow> (string \<times> changeResult) option" where
  "applySingleChange content change =
     (if \<not> usesAdvancedTargeting change then applyFastPath content change
      else applySlowPath content change)"

section \<open>Tokenizer\<close>

text \<open>\<open>text.split(/\s+/)\<close>: the pieces between the runs of white space; a run at either end
  leaves an empty piece there. \<open>cur\<close> is the piece being read, reversed; \<open>inRun\<close> tells that
  the unit before was white space.\<close>

fun splitWhiteSpace :: "string \<Rightarrow> bool \<Rightarrow> string \<Rightarrow> string list" where
  "splitWhiteSpace cur inRun [] = [rev cur]"
| "splitWhiteSpace cur inRun (c # cs) =
     (if isWhiteSpace c then
        (if inRun then splitWhiteSpace cur True cs
         else rev cur # splitWhiteSpace [] True cs)
      else splitWhiteSpace (c # cur) False cs)"

definition extractWords :: "string \<Rightarrow> string list" where
  "extractWords txt =
     filter (\<lambda>word. 0 < length word)
       (splitWhiteSpace [] False
          (map (\<lambda>c. if \<not> isWordChar c \<and> \<not> isWhiteSpace c then CHR '' '' else c)
             (toLowerCase txt)))"

definition countWords :: "string \<Rightarrow> nat" where
  "countWords txt = length (extractWords txt)"

section \<open>Document store\<close>

record documentMetadata =
  author :: "string option"
  tags :: "string list option"
  wordCount :: nat
  characterCount :: nat

record document =
  docId :: string
  title :: string
  content :: string
  metadata :: documentMetadata
  createdAt :: string
  updatedAt :: string
  version :: nat

record createDocumentInput =
  title_in :: string
  content_in :: string
  author_in :: "string option"
  tags_in :: "string list option"

record documentUpdates =
  title_upd :: "string option"
  content_upd :: "string option"

record patchDocumentInput =
  title_patch :: "string option"
  author_patch :: "string option"
  tags_patch :: "string list option"

text \<open>The two module-level maps. A \<open>Set\<close> of ids is the list of its members in insertion
  order.\<close>

record store =
  documents :: "string \<rightharpoonup> document"
  wordIndex :: "string \<rightharpoonup> string list"

definition emptyStore :: store where
  "emptyStore = \<lparr>documents = Map.empty, wordIndex = Map.empty\<rparr>"

text \<open>\<open>new Set(xs)\<close>, \<open>set.add(x)\<close> and \<open>set.delete(x)\<close>.\<close>

definition newSet :: "'a list \<Rightarrow> 'a list" where
  "newSet xs = rev (remdups (rev xs))"

definition setAdd :: "'a \<Rightarrow> 'a list \<Rightarrow> 'a list" where
  "setAdd x xs = (if x \<in> set xs then xs else xs @ [x])"

definition setDelete :: "'a \<Rightarrow> 'a list \<Rightarrow> 'a list" where
  "setDelete x xs = filter (\<lambda>y. y \<noteq> x) xs"

text \<open>The set of words that \<open>indexDocument\<close> and \<open>removeFromIndex\<close> both build.\<close>

definition docWords :: "document \<Rightarrow> string list" where
  "docWords doc = newSet (extractWords (title doc) @ extractWords (content doc))"

definition indexDocument :: "document \<Rightarrow> (string \<rightharpoonup> string list) \<Rightarrow> (string \<rightharpoonup> string list)" where
  "indexDocument doc wi =
     fold (\<lambda>word wi.
        (case wi word of
           None \<Rightarrow> wi(word \<mapsto> setAdd (docId doc) [])
         | Some docIds \<Rightarrow> wi(word \<mapsto> setAdd (docId doc) docIds)))
       (docWords doc) wi"

definition removeFromIndex :: "document \<Rightarrow> (string \<rightharpoonup> string list) \<Rightarrow> (string \<rightharpoonup> string list)" where
  "removeFromIndex doc wi =
     fold (\<lambda>word wi.
        (case wi word of
           None \<Rightarrow> wi
         | Some docIds \<Rightarrow>
             (let docIds' = setDelete (docId doc) docIds in
              if length docIds' = 0 then wi(word := None) else wi(word \<mapsto> docIds'))))
       (docWords doc) wi"

text \<open>\<open>createDocument\<close> reads \<open>randomUUID()\<close> and the clock; both readings are arguments here,
  as is the clock reading of \<open>updateDocument\<close> and \<open>patchDocument\<close>.\<close>

definition createDocument :: "string \<Rightarrow> string \<Rightarrow> createDocumentInput \<Rightarrow> store \<Rightarrow> document \<times> store" where
  "createDocument uuid now input st =
     (let doc = \<lparr>docId = uuid, title = title_in input, content = content_in input,
                 metadata = \<lparr>author = author_in input, tags = tags_in input,
                             wordCount = countWords (content_in input),
                             characterCount = length (content_in input)\<rparr>,
                 createdAt = now, updatedAt = now, version = 1\<rparr>
      in (doc, \<lparr>documents = (documents st)(docId doc \<mapsto> doc),
                wordIndex = indexDocument doc (wordIndex st)\<rparr>))"

definition getDocument :: "store \<Rightarrow> string \<Rightarrow> document option" where
  "getDocument st ident = documents st ident"

definition updateDocument :: "string \<Rightarrow> documentUpdates \<Rightarrow> string \<Rightarrow> store \<Rightarrow> document option \<times> store" where
  "updateDocument ident updates now st =
     (case documents st ident of
        None \<Rightarrow> (None, st)
      | Some doc \<Rightarrow>
          (let wi1 = removeFromIndex doc (wordIndex st);
               doc1 = (case title_upd updates of None \<Rightarrow> doc | Some t \<Rightarrow> doc\<lparr>title := t\<rparr>);
               doc2 = (case content_upd updates of
                         None \<Rightarrow> doc1
                       | Some c \<Rightarrow>
                           doc1\<lparr>content := c,
                                metadata := (metadata doc1)\<lparr>wordCount := countWords c,
                                                            characterCount := length c\<rparr>\<rparr>);
               doc3 = doc2\<lparr>updatedAt := now, version := version doc2 + 1\<rparr>;
               wi2 = indexDocument doc3 wi1
           in (Some doc3, \<lparr>documents = (documents st)(ident \<mapsto> doc3), wordIndex = wi2\<rparr>)))"

definition deleteDocument :: "string \<Rightarrow> store \<Rightarrow> bool \<times> store" where
  "deleteDocument ident st =
     (case documents st ident of
        None \<Rightarrow> (False, st)
      | Some doc \<Rightarrow>
          (True, \<lparr>documents = (documents st)(ident := None),
                  wordIndex = removeFromIndex doc (wordIndex st)\<rparr>))"

definition patchDocument :: "string \<Rightarrow> patchDocumentInput \<Rightarrow> string \<Rightarrow> store \<Rightarrow> document option \<times> store" where
  "patchDocument ident patch now st =
     (case documents st ident of
        None \<Rightarrow> (None, st)
      | Some doc \<Rightarrow>
          (let titleChanged = (case title_patch patch of None \<Rightarrow> False | Some t \<Rightarrow> t \<noteq> title doc);
               wi1 = (if titleChanged then removeFromIndex doc (wordIndex st) else wordIndex st);
               doc1 = (case title_patch patch of None \<Rightarrow> doc | Some t \<Rightarrow> doc\<lparr>title := t\<rparr>);
               doc2 = (case author_patch patch of
                         None \<Rightarrow> doc1
                       | Some a \<Rightarrow> doc1\<lparr>metadata := (metadata doc1)\<lparr>author := Some a\<rparr>\<rparr>);
               doc3 = (case tags_patch patch of
                         None \<Rightarrow> doc2
                       | Some ts \<Rightarrow> doc2\<lparr>metadata := (metadata doc2)\<lparr>tags := Some ts\<rparr>\<rparr>);
               doc4 = doc3\<lparr>updatedAt := now, version := version doc3 + 1\<rparr>;
               wi2 = (if titleChanged then indexDocument doc4 wi1 else wi1)
           in (Some doc4, \<lparr>documents = (documents st)(ident \<mapsto> doc4), wordIndex = wi2\<rparr>)))"

definition getDocumentsByIds :: "store \<Rightarrow> string list \<Rightarrow> document list" where
  "getDocumentsByIds st ids = List.map_filter (\<lambda>ident. documents st ident) ids"

definition findDocumentsByWord :: "store \<Rightarrow> string \<Rightarrow> string list" where
  "findDocumentsByWord st word =
     (case wordIndex st (toLowerCase word) of None \<Rightarrow> [] | Some docIds \<Rightarrow> docIds)"

text \<open>The intersection loop of \<open>findDocumentsByWords\<close>, which stops once the result is
  empty.\<close>

fun intersectLoop :: "string list \<Rightarrow> string list list \<Rightarrow> string list" where
  "intersectLoop result [] = result"
| "intersectLoop result (nextSet # rest) =
     (if 0 < length result
      then intersectLoop (filter (\<lambda>ident. ident \<in> set nextSet) result) rest
      else result)"

definition findDocumentsByWords :: "store \<Rightarrow> string list \<Rightarrow> string list" where
  "findDocumentsByWords st words =
     (case words of
        [] \<Rightarrow> []
      | [w] \<Rightarrow> findDocumentsByWord st w
      | _ \<Rightarrow>
          (let postingLists =
                 List.map_filter
                   (\<lambda>word. case wordIndex st (toLowerCase word) of
                              None \<Rightarrow> None
                            | Some docIds \<Rightarrow> if 0 < length docIds then Some docIds else None)
                   words
           in if length postingLists \<noteq> length words then []
              else (case sort_key length postingLists of
                      [] \<Rightarrow> []
                    | first # rest \<Rightarrow> intersectLoop first rest)))"

section \<open>Concurrency token\<close>

text \<open>The decimal digits of a version number, as a template literal prints an integer
  below \<open>10^21\<close>.\<close>

fun showNat :: "nat \<Rightarrow> string" where
  "showNat n =
     (if n < 10 then [''0123456789'' ! n]
      else showNat (n div 10) @ [''0123456789'' ! (n mod 10)])"

declare showNat.simps [simp del]

text \<open>\<open>createHash('md5').update(s).digest('hex')\<close> belongs to the runtime; it is the
  argument \<open>md5hex\<close>.\<close>

definition generateETag :: "(string \<Rightarrow> string) \<Rightarrow> document \<Rightarrow> string" where
  "generateETag md5hex doc =
     (let hash = substring
                   (md5hex (docId doc @ ''-'' @ showNat (version doc) @ ''-'' @ updatedAt doc))
                   0 8
      in [CHR 0x22] @ ''v'' @ showNat (version doc) @ ''-'' @ hash @ [CHR 0x22])"

text \<open>\<open>s.split(',')\<close>, \<open>s.trim()\<close> and \<open>s.replace(/^W\//, '')\<close>.\<close>

fun splitOn :: "char \<Rightarrow> string \<Rightarrow> string \<Rightarrow> string list" where
  "splitOn sep cur [] = [rev cur]"
| "splitOn sep cur (c # cs) =
     (if c = sep then rev cur # splitOn sep [] cs else splitOn sep (c # cur) cs)"

definition trim :: "string \<Rightarrow> string" where
  "trim s = rev (dropWhile isWhiteSpace (rev (dropWhile isWhiteSpace s)))"

definition stripWeak :: "string \<Rightarrow> string" where
  "stripWeak s = (if take 2 s = ''W/'' then drop 2 s else s)"

definition validateIfMatch :: "(string \<Rightarrow> string) \<Rightarrow> string option \<Rightarrow> document \<Rightarrow> bool" where
  "validateIfMatch md5hex ifMatch doc =
     (case ifMatch of
        None \<Rightarrow> True
      | Some im \<Rightarrow>
          if im = [] then True
          else if im = ''*'' then True
          else
            (let currentETag = generateETag md5hex doc;
                 requestedETags = map trim (splitOn (CHR '','') [] im)
             in list_ex (\<lambda>requestedETag.
                   (let normalizedRequested = stripWeak requestedETag;
                        normalizedCurrent = stripWeak currentETag
                    in normalizedRequested = normalizedCurrent))
                  requestedETags))"

section \<open>Search engine\<close>

record searchQuery =
  query :: string
  documentIds :: "string list option"
  caseSensitive :: "bool option"
  contextSize :: "real option"
  maxResults :: "real option"

record searchMatch =
  documentId :: string
  documentTitle :: string
  position :: nat
  matchContext :: string
  matchedText :: string

record searchResponse =
  query_res :: string
  totalMatches :: nat
  documentsSearched :: nat
  results :: "searchMatch list"

text \<open>\<open>s.slice(a, b)\<close>: each end truncated to a whole number, counted from the end of the
  string when negative, and clamped to the string.\<close>

definition sliceEnd :: "nat \<Rightarrow> real \<Rightarrow> nat" where
  "sliceEnd n r =
     (let k = toInteger r in
      if k < 0 then nat (max (int n + k) 0) else nat (min k (int n)))"

definition slice :: "string \<Rightarrow> real \<Rightarrow> real \<Rightarrow> string" where
  "slice s a b =
     (let n = length s; from = sliceEnd n a; to = sliceEnd n b in take (to - from) (drop from s))"

definition extractContext :: "string \<Rightarrow> nat \<Rightarrow> nat \<Rightarrow> real \<Rightarrow> string" where
  "extractContext txt matchStart matchEnd size' =
     (let start = max 0 (real matchStart - size');
          end' = min (real (length txt)) (real matchEnd + size');
          ctx = slice txt start end';
          ctx = (if 0 < start then ''...'' @ ctx else ctx);
          ctx = (if end' < real (length txt) then ctx @ ''...'' else ctx)
      in ctx)"

function searchInDocument_loop ::
  "document \<Rightarrow> regexp \<Rightarrow> real \<Rightarrow> real \<Rightarrow> nat \<Rightarrow> searchMatch list \<Rightarrow> searchMatch list" where
  "searchInDocument_loop doc searchPattern size' limit lastIndex found =
     (case regExpExec searchPattern (content doc) lastIndex of
        None \<Rightarrow> found
      | Some (i, e) \<Rightarrow>
          if limit \<le> real (length found) then found
          else searchInDocument_loop doc searchPattern size' limit
                 (if e - i = 0 then Suc e else e)
                 (found @ [\<lparr>documentId = docId doc, documentTitle = title doc, position = i,
                              matchContext = extractContext (content doc) i e size',
                              matchedText = substring (content doc) i e\<rparr>]))"
  by pat_completeness auto
termination
proof (relation "measure (\<lambda>(doc, R, cs, mr, k, rs). Suc (length (content doc)) - k)")
  show "wf (measure (\<lambda>(doc, R, cs, mr, k, rs). Suc (length (content doc)) - k))" by simp
next
  fix doc :: document and searchPattern :: regexp
    and size' limit :: real and lastIndex :: nat and found :: "searchMatch list" and x2 i e
  assume "regExpExec searchPattern (content doc) lastIndex = Some x2" and "(i, e) = x2"
  then have "regExpExec searchPattern (content doc) lastIndex = Some (i, e)" by simp
  from regExpExec_bounds [OF this]
  show "((doc, searchPattern, size', limit, if e - i = 0 then Suc e else e,
          found @ [\<lparr>documentId = docId doc, documentTitle = title doc, position = i,
                     matchContext = extractContext (content doc) i e size',
                     matchedText = substring (content doc) i e\<rparr>]),
         doc, searchPattern, size', limit, lastIndex, found)
          \<in> measure (\<lambda>(doc, R, cs, mr, k, rs). Suc (length (content doc)) - k)"
    by auto
qed

declare searchInDocument_loop.simps [simp del]

definition searchInDocument ::
  "document \<Rightarrow> regexp \<Rightarrow> real \<Rightarrow> real \<Rightarrow> searchMatch list \<Rightarrow> searchMatch list" where
  "searchInDocument doc pattern size' limit currentResults =
     searchInDocument_loop doc pattern size' limit 0 currentResults"

definition getCandidateDocuments :: "store \<Rightarrow> string \<Rightarrow> string list option \<Rightarrow> document list" where
  "getCandidateDocuments st query' documentIds' =
     (let queryWords = extractWords query' in
      case (case documentIds' of
              None \<Rightarrow> None
            | Some ids \<Rightarrow> if 0 < length ids then Some ids else None) of
        Some ids \<Rightarrow> getDocumentsByIds st ids
      | None \<Rightarrow>
          if length queryWords = 0 then []
          else if length queryWords = 1 then
            (let candidateIds = findDocumentsByWord st (queryWords ! 0) in
             if 0 < length candidateIds then getDocumentsByIds st candidateIds else [])
          else
            (let candidateIds = findDocumentsByWords st queryWords in
             if 0 < length candidateIds then getDocumentsByIds st candidateIds else []))"

text \<open>The loop of \<open>search\<close> over the candidates.\<close>

fun searchLoop ::
  "document list \<Rightarrow> regexp \<Rightarrow> real \<Rightarrow> real \<Rightarrow> searchMatch list \<Rightarrow> searchMatch list" where
  "searchLoop [] pattern size' limit found = found"
| "searchLoop (doc # docs) pattern size' limit found =
     (if limit \<le> real (length found) then found
      else searchLoop docs pattern size' limit (searchInDocument doc pattern size' limit found))"

definition search :: "store \<Rightarrow> searchQuery \<Rightarrow> searchResponse option" where
  "search st q =
     (let searchText' = query q;
          caseSensitive' = (case caseSensitive q of None \<Rightarrow> False | Some b \<Rightarrow> b);
          contextSize' = (case contextSize q of None \<Rightarrow> 50 | Some n \<Rightarrow> n);
          maxResults' = (case maxResults q of None \<Rightarrow> 100 | Some n \<Rightarrow> n);
          escapedQuery = escapeRegex searchText';
          flags = (if caseSensitive' then ''g'' else ''gi'')
      in case newRegExp escapedQuery flags of
           None \<Rightarrow> None
         | Some pattern \<Rightarrow>
             (let candidates = getCandidateDocuments st searchText' (documentIds q);
                  found = searchLoop candidates pattern contextSize' maxResults' []
              in Some \<lparr>query_res = searchText', totalMatches = length found,
                        documentsSearched = length candidates, results = found\<rparr>))"

section \<open>The change engine, as the specification describes it\<close>

text \<open>The pattern the specification describes: the search text taken literally, between
  word boundaries when \<open>matchWholeWord\<close> is set, case-insensitive when \<open>matchCase\<close> is
  false.\<close>

definition literalPattern :: "change \<Rightarrow> regexp" where
  "literalPattern change =
     \<lparr>source = (if matchWholeWord change = Some True
                then [WordBoundary] @ map Lit (searchText change) @ [WordBoundary]
                else map Lit (searchText change)),
      ignoreCase = (matchCase change = Some False),
      global = True\<rparr>"

text \<open>The text \<open>pat\<close> stands at offset \<open>i\<close> of \<open>s\<close>.\<close>

definition occursAt :: "bool \<Rightarrow> string \<Rightarrow> string \<Rightarrow> nat \<Rightarrow> bool" where
  "occursAt ic s pat i =
     (i + length pat \<le> length s \<and> (\<forall>j<length pat. unitEq ic (s ! (i + j)) (pat ! j)))"

text \<open>The search text of a change matches at offset \<open>i\<close>, under its \<open>matchCase\<close> and
  \<open>matchWholeWord\<close> settings.\<close>

definition matchesAt :: "string \<Rightarrow> change \<Rightarrow> nat \<Rightarrow> bool" where
  "matchesAt s change i =
     (occursAt (matchCase change = Some False) s (searchText change) i \<and>
      (matchWholeWord change = Some True \<longrightarrow>
         atWordBoundary s i \<and> atWordBoundary s (i + length (searchText change))))"

text \<open>The text of \<open>s\<close> from offset \<open>k\<close> on, in which each match of the list, taken from
  left to right, is replaced by \<open>rep\<close>.\<close>

fun replaceMatches :: "string \<Rightarrow> string \<Rightarrow> nat \<Rightarrow> regmatch list \<Rightarrow> string" where
  "replaceMatches s rep k [] = drop k s"
| "replaceMatches s rep k (m # ms) =
     take (index m - k) (drop k s) @ rep @ replaceMatches s rep (index m + mlength m) ms"

text \<open>A list of matches inside a text of length \<open>n\<close>, none before offset \<open>k\<close>, each one
  starting after the previous one has ended (and further right than it started).\<close>

fun ascending :: "nat \<Rightarrow> nat \<Rightarrow> regmatch list \<Rightarrow> bool" where
  "ascending n k [] = True"
| "ascending n k (m # ms) =
     (k \<le> index m \<and> index m + mlength m \<le> n \<and>
      ascending n (if mlength m = 0 then Suc (index m) else index m + mlength m) ms)"

text \<open>The splice loop over matches that are all defined.\<close>

fun spliceAll ::
  "string \<Rightarrow> regmatch list \<Rightarrow> string \<times> nat list \<times> nat \<Rightarrow> string \<times> nat list \<times> nat" where
  "spliceAll rep [] st = st"
| "spliceAll rep (m # ms) (txt, ps, n) =
     spliceAll rep ms
       (substring txt 0 (index m) @ rep @ substringFrom txt (index m + mlength m),
        index m # ps, n + 1)"

text \<open>The occurrence of the change reads the array of eligible matches at a number that is
  not whole: no range is given, \<open>replaceAll\<close> is false, and the occurrence is positive, at
  most the number of eligible matches, and not a whole number.\<close>

definition offArray :: "change \<Rightarrow> regmatch list \<Rightarrow> bool" where
  "offArray change eligible =
     (startIndex change = None \<and> endIndex change = None \<and> replaceAll change = Some False \<and>
      (case occurrence change of
         None \<Rightarrow> False
       | Some k \<Rightarrow> 0 < k \<and> k \<le> real (length eligible) \<and> \<not> isIntegral k))"

text \<open>The matches that a change selects among its eligible matches, when there is one and
  the occurrence does not read off the array.\<close>

definition chosenMatches :: "change \<Rightarrow> regmatch list \<Rightarrow> regmatch list" where
  "chosenMatches change eligible =
     (if startIndex change \<noteq> None \<or> endIndex change \<noteq> None then eligible
      else if replaceAll change = Some False then
        (case occurrence change of
           None \<Rightarrow> [eligible ! 0]
         | Some k \<Rightarrow>
             if 0 < k then
               (if k \<le> real (length eligible) then [eligible ! nat (\<lfloor>k\<rfloor> - 1)] else [])
             else [eligible ! 0])
      else eligible)"

text \<open>The eligible matches of a change in \<open>s\<close>: those in range and in context.\<close>

definition eligibleOf :: "string \<Rightarrow> change \<Rightarrow> regmatch list" where
  "eligibleOf s change = eligibleMatches s change (findAllMatches s (literalPattern change))"

text \<open>The outcome of the slow path in which exactly the matches \<open>ms\<close> are replaced.\<close>

definition replacedExactly :: "string \<Rightarrow> change \<Rightarrow> regmatch list \<Rightarrow> (string \<times> changeResult) option" where
  "replacedExactly s change ms =
     Some (replaceMatches s (replaceText change) 0 ms,
       \<lparr>resSearchText = searchText change, resReplaceText = replaceText change,
        matchesFound = length (findAllMatches s (literalPattern change)),
        replacementsMade = length ms,
        positions = (if ms = [] then None else Some (map index ms))\<rparr>)"

text \<open>A change that gives only its two texts, and the result of a change that replaced
  nothing because nothing matched.\<close>

definition simpleChange :: "string \<Rightarrow> string \<Rightarrow> change" where
  "simpleChange a b =
     \<lparr>searchText = a, replaceText = b, matchCase = None, matchWholeWord = None,
      replaceAll = None, occurrence = None, startIndex = None, endIndex = None,
      beforeContext = None, afterContext = None\<rparr>"

definition unchanged :: "change \<Rightarrow> changeResult" where
  "unchanged change =
     \<lparr>resSearchText = searchText change, resReplaceText = replaceText change,
      matchesFound = 0, replacementsMade = 0, positions = None\<rparr>"

section \<open>The store, the token and the examples, as the specification describes them\<close>

text \<open>The posting set of a term, and the terms of a document: the normalized words of
  its title and of its content.\<close>

definition post :: "(string \<rightharpoonup> string list) \<Rightarrow> string \<Rightarrow> string set" where
  "post wi t = (case wi t of None \<Rightarrow> {} | Some docIds \<Rightarrow> set docIds)"

definition hasWord :: "document \<Rightarrow> string \<Rightarrow> bool" where
  "hasWord doc t = (t \<in> set (extractWords (title doc)) \<or> t \<in> set (extractWords (content doc)))"

text \<open>The index is exact: an id is in the posting set of a term exactly when it is the id
  of a stored document that has the term, and no key has an empty posting set.\<close>

definition indexExact :: "store \<Rightarrow> bool" where
  "indexExact st =
     ((\<forall>t d. d \<in> post (wordIndex st) t \<longleftrightarrow> (\<exists>doc. documents st d = Some doc \<and> hasWord doc t)) \<and>
      (\<forall>t. wordIndex st t \<noteq> Some []))"

text \<open>Every document is stored under its own id, and a posting set holds an id once.\<close>

definition wellFormed :: "store \<Rightarrow> bool" where
  "wellFormed st =
     ((\<forall>d doc. documents st d = Some doc \<longrightarrow> docId doc = d) \<and>
      (\<forall>t docIds. wordIndex st t = Some docIds \<longrightarrow> distinct docIds))"

definition storeInv :: "store \<Rightarrow> bool" where
  "storeInv st = (wellFormed st \<and> indexExact st)"

text \<open>One step of the loop of \<open>indexDocument\<close> and of \<open>removeFromIndex\<close>.\<close>

definition addStep :: "string \<Rightarrow> string \<Rightarrow> (string \<rightharpoonup> string list) \<Rightarrow> (string \<rightharpoonup> string list)" where
  "addStep d word wi =
     (case wi word of
        None \<Rightarrow> wi(word \<mapsto> setAdd d [])
      | Some docIds \<Rightarrow> wi(word \<mapsto> setAdd d docIds))"

definition delStep :: "string \<Rightarrow> string \<Rightarrow> (string \<rightharpoonup> string list) \<Rightarrow> (string \<rightharpoonup> string list)" where
  "delStep d word wi =
     (case wi word of
        None \<Rightarrow> wi
      | Some docIds \<Rightarrow>
          (let docIds' = setDelete d docIds in
           if length docIds' = 0 then wi(word := None) else wi(word \<mapsto> docIds')))"

definition noEmpty :: "(string \<rightharpoonup> string list) \<Rightarrow> bool" where
  "noEmpty wi = (\<forall>t. wi t \<noteq> Some [])"

definition allDistinct :: "(string \<rightharpoonup> string list) \<Rightarrow> bool" where
  "allDistinct wi = (\<forall>t docIds. wi t = Some docIds \<longrightarrow> distinct docIds)"

text \<open>The document that \<open>patchDocument\<close> leaves in the store.\<close>

definition patched :: "document \<Rightarrow> patchDocumentInput \<Rightarrow> string \<Rightarrow> document" where
  "patched doc patch now =
     doc\<lparr>title := (case title_patch patch of None \<Rightarrow> title doc | Some t \<Rightarrow> t),
         metadata := (metadata doc)
           \<lparr>author := (case author_patch patch of None \<Rightarrow> author (metadata doc) | Some a \<Rightarrow> Some a),
            tags := (case tags_patch patch of None \<Rightarrow> tags (metadata doc) | Some ts \<Rightarrow> Some ts)\<rparr>,
         updatedAt := now, version := version doc + 1\<rparr>"

text \<open>The characters of a version number and of a hexadecimal digest.\<close>

definition isDigit :: "char \<Rightarrow> bool" where
  "isDigit c = (c \<in> set ''0123456789'')"

definition isHexDigit :: "char \<Rightarrow> bool" where
  "isHexDigit c = (c \<in> set ''0123456789abcdef'')"

text \<open>Example data: a store with one document, and the store of three documents of the
  search scenario.\<close>

definition plainInput :: "string \<Rightarrow> string \<Rightarrow> createDocumentInput" where
  "plainInput t c = \<lparr>title_in = t, content_in = c, author_in = None, tags_in = None\<rparr>"

definition oneDocStore :: store where
  "oneDocStore = snd (createDocument ''d1'' ''t1'' (plainInput ''a'' ''hello world today'') emptyStore)"

definition threeDocStore :: store where
  "threeDocStore =
     snd (createDocument ''d3'' ''t3'' (plainInput ''c'' ''goodbye world yesterday'')
       (snd (createDocument ''d2'' ''t2'' (plainInput ''b'' ''hello universe tomorrow'')
          oneDocStore)))"

definition firstDoc :: document where
  "firstDoc = \<lparr>docId = ''d1'', title = ''a'', content = ''hello world today'',
     metadata = \<lparr>author = None, tags = None, wordCount = 3, characterCount = 17\<rparr>,
     createdAt = ''t1'', updatedAt = ''t1'', version = 1\<rparr>"

definition secondDoc :: document where
  "secondDoc = \<lparr>docId = ''d2'', title = ''b'', content = ''hello universe tomorrow'',
     metadata = \<lparr>author = None, tags = None, wordCount = 3, characterCount = 23\<rparr>,
     createdAt = ''t2'', updatedAt = ''t2'', version = 1\<rparr>"

definition thirdDoc :: document where
  "thirdDoc = \<lparr>docId = ''d3'', title = ''c'', content = ''goodbye world yesterday'',
     metadata = \<lparr>author = None, tags = None, wordCount = 3, characterCount = 23\<rparr>,
     createdAt = ''t3'', updatedAt = ''t3'', version = 1\<rparr>"

definition exampleDigest :: "string \<Rightarrow> string" where
  "exampleDigest s = ''d41d8cd98f00b204e9800998ecf8427e''"

definition emptyPatch :: patchDocumentInput where
  "emptyPatch = \<lparr>title_patch = None, author_patch = None, tags_patch = None\<rparr>"

definition plainQuery :: "string \<Rightarrow> searchQuery" where
  "plainQuery q = \<lparr>query = q, documentIds = None, caseSensitive = None, contextSize = None,
                    maxResults = None\<rparr>"

section \<open>Properties of the change engine\<close>

subsection \<open>Escaped text is read back literally\<close>

lemma parsePattern_unit:
  "\<not> isSyntaxChar c \<Longrightarrow> parsePattern (c # cs) = map_option ((#) (Lit c)) (parsePattern cs)"
  by (cases cs) (auto simp: isSyntaxChar_def)

lemma parsePattern_escaped:
  "isSyntaxChar c \<Longrightarrow>
     parsePattern (CHR 0x5C # c # cs) = map_option ((#) (Lit c)) (parsePattern cs)"
  by (auto simp: isSyntaxChar_def)

lemma parsePattern_escapeRegex:
  "parsePattern (escapeRegex str @ rest) = map_option ((@) (map Lit str)) (parsePattern rest)"
proof (induction str)
  case Nil
  show ?case by (simp add: escapeRegex_def option.map_ident)
next
  case (Cons c str)
  have step: "escapeRegex (c # str) = (if isSyntaxChar c then [CHR 0x5C, c] else [c]) @ escapeRegex str"
    by (simp add: escapeRegex_def)
  show ?case
  proof (cases "isSyntaxChar c")
    case True
    then show ?thesis
      using Cons.IH by (simp add: step parsePattern_escaped option.map_comp comp_def del: parsePattern.simps)
  next
    case False
    then show ?thesis
      using Cons.IH by (simp add: step parsePattern_unit option.map_comp comp_def del: parsePattern.simps)
  qed
qed

lemma buildPattern_literal: "buildPattern change = Some (literalPattern change)"
proof -
  have b: "parsePattern [CHR 0x5C, CHR ''b''] = Some [WordBoundary]"
    by simp
  have plain: "parsePattern (escapeRegex (searchText change)) = Some (map Lit (searchText change))"
    using parsePattern_escapeRegex [of "searchText change" "[]"] by simp
  have whole: "parsePattern ([CHR 0x5C, CHR ''b''] @ escapeRegex (searchText change) @ [CHR 0x5C, CHR ''b''])
      = Some ([WordBoundary] @ map Lit (searchText change) @ [WordBoundary])"
    using parsePattern_escapeRegex [of "searchText change" "[CHR 0x5C, CHR ''b'']"] b
    by simp
  show ?thesis
    unfolding buildPattern_def literalPattern_def newRegExp_def Let_def
    using plain whole
    by (cases "matchCase change"; cases "matchWholeWord change") (auto simp del: parsePattern.simps)
qed

lemma matchAtoms_literal:
  "i \<le> length s \<Longrightarrow> matchAtoms ic s i (map Lit pat @ rest) =
     (if occursAt ic s pat i then matchAtoms ic s (i + length pat) rest else None)"
proof (induction pat arbitrary: i)
  case Nil
  then show ?case by (simp add: occursAt_def) 
next
  case (Cons c pat)
  have eq: "occursAt ic s (c # pat) i \<longleftrightarrow> i < length s \<and> unitEq ic (s ! i) c \<and> occursAt ic s pat (Suc i)"
    unfolding occursAt_def
    by (auto simp: less_Suc_eq_0_disj)
  show ?case
  proof (cases "i < length s")
    case True
    then show ?thesis using Cons.IH [of "Suc i"] eq by simp
  next
    case False
    then show ?thesis using eq by simp
  qed
qed

lemma matchAtoms_literalPattern:
  assumes "i \<le> length s"
  shows "matchAtoms (ignoreCase (literalPattern change)) s i (source (literalPattern change)) =
     (if matchesAt s change i then Some (i + length (searchText change)) else None)"
proof (cases "matchWholeWord change = Some True")
  case True
  then show ?thesis
    using assms matchAtoms_literal [OF assms, of "matchCase change = Some False" "searchText change" "[WordBoundary]"]
    by (simp add: literalPattern_def matchesAt_def)
next
  case False
  then show ?thesis
    using assms matchAtoms_literal [OF assms, of "matchCase change = Some False" "searchText change" "[]"]
    by (simp add: literalPattern_def matchesAt_def)
qed

lemma regExpExec_None_iff:
  "regExpExec R S k = None \<longleftrightarrow> (\<forall>i. k \<le> i \<and> i \<le> length S \<longrightarrow> matchAtoms (ignoreCase R) S i (source R) = None)"
proof (induction R S k rule: regExpExec.induct)
  case (1 R S lastIndex)
  show ?case
  proof (cases "length S < lastIndex")
    case True
    then show ?thesis by (auto simp: regExpExec.simps)
  next
    case False
    show ?thesis
    proof (cases "matchAtoms (ignoreCase R) S lastIndex (source R)")
      case None
      have "(\<forall>i. lastIndex \<le> i \<and> i \<le> length S \<longrightarrow> matchAtoms (ignoreCase R) S i (source R) = None)
        \<longleftrightarrow> (\<forall>i. Suc lastIndex \<le> i \<and> i \<le> length S \<longrightarrow> matchAtoms (ignoreCase R) S i (source R) = None)"
        using None by (metis Suc_leI le_neq_implies_less Suc_leD)
      with "1.IH" [OF False None] None False show ?thesis
        by (simp add: regExpExec.simps [of R S lastIndex])
    next
      case (Some e)
      with False show ?thesis
        by (auto simp: regExpExec.simps [of R S lastIndex])
    qed
  qed
qed

subsection \<open>Matches are found from left to right\<close>

lemma ascending_mono: "ascending n k ms \<Longrightarrow> k' \<le> k \<Longrightarrow> ascending n k' ms"
  by (cases ms) auto

lemma ascending_filter: "ascending n k ms \<Longrightarrow> ascending n k (filter P ms)"
proof (induction ms arbitrary: k)
  case Nil
  show ?case by simp
next
  case (Cons m ms)
  let ?k' = "if mlength m = 0 then Suc (index m) else index m + mlength m"
  from Cons.prems have tl: "ascending n ?k' ms" and hd: "k \<le> index m" "index m + mlength m \<le> n"
    by simp_all
  from Cons.IH [OF tl] have f: "ascending n ?k' (filter P ms)" .
  show ?case
  proof (cases "P m")
    case True
    with f hd show ?thesis by simp
  next
    case False
    have "k \<le> ?k'" using hd by simp
    with f False show ?thesis using ascending_mono by simp
  qed
qed

lemma ascending_member:
  "ascending n k ms \<Longrightarrow> m \<in> set ms \<Longrightarrow> k \<le> index m \<and> index m + mlength m \<le> n"
proof (induction ms arbitrary: k)
  case Nil
  then show ?case by simp
next
  case (Cons a ms)
  show ?case
  proof (cases "m = a")
    case True
    with Cons.prems show ?thesis by simp
  next
    case False
    with Cons.prems have "m \<in> set ms"
      and "ascending n (if mlength a = 0 then Suc (index a) else index a + mlength a) ms"
      and "k \<le> index a"
      by simp_all
    with Cons.IH [of "if mlength a = 0 then Suc (index a) else index a + mlength a"]
    show ?thesis by (auto split: if_splits)
  qed
qed

lemma ascending_later:
  "ascending n k (a # ms) \<Longrightarrow> m \<in> set ms \<Longrightarrow> index a < index m"
  using ascending_member [of n "if mlength a = 0 then Suc (index a) else index a + mlength a" ms m]
  by (auto split: if_splits)

lemma ascending_single: "ascending n k ms \<Longrightarrow> m \<in> set ms \<Longrightarrow> ascending n k [m]"
  using ascending_member [of n k ms m] by simp

lemma insort_key_last:
  "\<forall>y \<in> set ys. f y < f x \<Longrightarrow> insort_key f x ys = ys @ [x]"
  for f :: "'a \<Rightarrow> int"
  by (induction ys) auto

lemma sort_descending:
  "ascending n k ms \<Longrightarrow> sort_key (\<lambda>m. - int (index m)) ms = rev ms"
proof (induction ms arbitrary: k)
  case Nil
  show ?case by simp
next
  case (Cons a ms)
  from Cons.prems have "ascending n (if mlength a = 0 then Suc (index a) else index a + mlength a) ms"
    by simp
  from Cons.IH [OF this] have ih: "sort_key (\<lambda>m. - int (index m)) ms = rev ms" .
  have "\<forall>y \<in> set (rev ms). - int (index y) < - int (index a)"
    using ascending_later [OF Cons.prems] by simp
  from insort_key_last [of "rev ms" "\<lambda>m. - int (index m)" a, OF this] ih
  show ?case by simp
qed

lemma spliceAll_append:
  "spliceAll rep (xs @ ys) st = spliceAll rep ys (spliceAll rep xs st)"
proof (induction xs arbitrary: st)
  case Nil
  show ?case by simp
next
  case (Cons x xs)
  obtain c ps n where st: "st = (c, ps, n)" by (cases st)
  show ?case unfolding st using Cons.IH by simp
qed

lemma replaceMatches_shift:
  assumes "e \<le> k'" and "\<forall>m \<in> set ms. k' \<le> index m"
  shows "replaceMatches s rep e ms = drop e (take k' s) @ replaceMatches s rep k' ms"
proof (cases ms)
  case Nil
  have "drop e s = drop e (take k' s @ drop k' s)" by simp
  also have "\<dots> = drop e (take k' s) @ drop (e - length (take k' s)) (drop k' s)"
    by (simp only: drop_append)
  also have "drop (e - length (take k' s)) (drop k' s) = drop k' s"
    using assms(1) by (cases "k' \<le> length s") (auto simp: min_def)
  finally show ?thesis using Nil by simp
next
  case (Cons m ms')
  with assms have le: "e \<le> k'" "k' \<le> index m" by simp_all
  have "take (index m - e) (drop e s) = drop e (take (index m) s)"
    by (simp add: drop_take)
  also have "take (index m) s = take k' s @ take (index m - k') (drop k' s)"
    using le by (metis le_add_diff_inverse take_add)
  also have "drop e (take k' s @ take (index m - k') (drop k' s)) =
      drop e (take k' s) @ take (index m - k') (drop k' s)"
    using le by (simp add: min_def)
  finally show ?thesis using Cons by simp
qed

lemma spliceAll_rev:
  "ascending (length s) k ms \<Longrightarrow>
     spliceAll rep (rev ms) (s, [], 0) =
       (take k s @ replaceMatches s rep k ms, map index ms, length ms)"
proof (induction ms arbitrary: k)
  case Nil
  show ?case by simp
next
  case (Cons m ms)
  let ?e = "index m + mlength m"
  let ?k' = "if mlength m = 0 then Suc (index m) else ?e"
  from Cons.prems have tl: "ascending (length s) ?k' ms"
    and b: "k \<le> index m" "?e \<le> length s"
    by simp_all
  have later: "\<forall>m' \<in> set ms. ?k' \<le> index m'"
    using ascending_member [OF tl] by blast
  have ek: "?e \<le> ?k'" by simp
  let ?R = "replaceMatches s rep ?k' ms"
  have ih: "spliceAll rep (rev ms) (s, [], 0) = (take ?k' s @ ?R, map index ms, length ms)"
    using Cons.IH [OF tl] .
  have pre: "substring (take ?k' s @ ?R) 0 (index m) = take (index m) s"
    using b by (auto simp: substring_def Let_def min_def max_def)
  have post: "substringFrom (take ?k' s @ ?R) ?e = drop ?e (take ?k' s) @ ?R"
    using b by (auto simp: substringFrom_def min_def)
  have shift: "replaceMatches s rep ?e ms = drop ?e (take ?k' s) @ ?R"
    using replaceMatches_shift [OF ek later] .
  have front: "take (index m) s = take k s @ take (index m - k) (drop k s)"
    using b by (metis le_add_diff_inverse take_add)
  have "spliceAll rep (rev (m # ms)) (s, [], 0) =
      spliceAll rep [m] (take ?k' s @ ?R, map index ms, length ms)"
    using ih by (simp add: spliceAll_append)
  also have "\<dots> = (take (index m) s @ rep @ drop ?e (take ?k' s) @ ?R,
      index m # map index ms, Suc (length ms))"
    using pre post by simp
  also have "\<dots> = (take k s @ replaceMatches s rep k (m # ms), map index (m # ms), length (m # ms))"
    using shift front by simp
  finally show ?case .
qed

lemma ascending_findAllMatches_loop:
  "ascending (length s) k (findAllMatches_loop s R k)"
proof (induction s R k rule: findAllMatches_loop.induct)
  case (1 tx searchPattern lastIndex)
  show ?case
  proof (cases "regExpExec searchPattern tx lastIndex")
    case None
    then show ?thesis by (simp add: findAllMatches_loop.simps [of tx searchPattern lastIndex])
  next
    case (Some r)
    obtain i e where r: "r = (i, e)" by (cases r)
    from regExpExec_bounds [of searchPattern tx lastIndex i e] Some r
    have b: "lastIndex \<le> i" "i \<le> e" "e \<le> length tx" by simp_all
    from "1.IH" [OF Some r [symmetric]]
    have "ascending (length tx) (if e - i = 0 then Suc e else e)
            (findAllMatches_loop tx searchPattern (if e - i = 0 then Suc e else e))" .
    with b Some r show ?thesis
      by (auto simp: findAllMatches_loop.simps [of tx searchPattern lastIndex])
  qed
qed

lemma ascending_eligibleOf: "ascending (length s) 0 (eligibleOf s change)"
  unfolding eligibleOf_def eligibleMatches_def findAllMatches_def
  by (rule ascending_filter) (rule ascending_findAllMatches_loop)

lemma ascending_chosenMatches:
  assumes "eligibleOf s change \<noteq> []"
  shows "ascending (length s) 0 (chosenMatches change (eligibleOf s change))"
proof -
  let ?el = "eligibleOf s change"
  have asc: "ascending (length s) 0 ?el" by (rule ascending_eligibleOf)
  have nth: "\<And>j. j < length ?el \<Longrightarrow> ascending (length s) 0 [?el ! j]"
    using ascending_single [OF asc] nth_mem by blast
  have zero: "ascending (length s) 0 [?el ! 0]"
    using nth [of 0] assms by simp
  have kth: "ascending (length s) 0 [?el ! nat (\<lfloor>k\<rfloor> - 1)]"
    if "0 < k" and "k \<le> real (length ?el)" for k :: real
  proof -
    from that have "\<lfloor>k\<rfloor> \<le> int (length ?el)" by linarith
    moreover from assms have "0 < length ?el" by simp
    ultimately have "nat (\<lfloor>k\<rfloor> - 1) < length ?el" by linarith
    then show ?thesis by (rule nth)
  qed
  show ?thesis
    unfolding chosenMatches_def
    using asc zero kth
    by (auto split: option.splits)
qed

lemma isIntegral_pred:
  assumes "isIntegral k" and "0 < k"
  shows "isIntegral (k - 1) \<and> 0 \<le> k - 1 \<and> nat \<lfloor>k - 1\<rfloor> = nat (\<lfloor>k\<rfloor> - 1)"
proof -
  have k: "of_int \<lfloor>k\<rfloor> = k"
    using assms(1) unfolding isIntegral_def .
  have fl: "\<lfloor>k - 1\<rfloor> = \<lfloor>k\<rfloor> - 1" by simp
  from k assms(2) have "0 < \<lfloor>k\<rfloor>" by linarith
  then have "1 \<le> k" using k by linarith
  moreover have "of_int \<lfloor>k - 1\<rfloor> = k - 1"
    unfolding fl using k by simp
  then have "isIntegral (k - 1)"
    unfolding isIntegral_def .
  ultimately show ?thesis using fl by simp
qed

lemma arrayGet_first: "xs \<noteq> [] \<Longrightarrow> arrayGet xs 0 = Some (xs ! 0)"
  by (simp add: arrayGet_def isIntegral_def)

lemma arrayGet_occurrence:
  assumes "isIntegral k" and "0 < k" and "k \<le> real (length xs)"
  shows "arrayGet xs (k - 1) = Some (xs ! nat (\<lfloor>k\<rfloor> - 1))"
  using isIntegral_pred [OF assms(1,2)] assms(3)
  by (simp add: arrayGet_def)

lemma arrayGet_fraction: "\<not> isIntegral k \<Longrightarrow> arrayGet xs (k - 1) = None"
proof -
  assume frac: "\<not> isIntegral k"
  have "\<not> isIntegral (k - 1)"
  proof
    assume "isIntegral (k - 1)"
    then have "of_int \<lfloor>k - 1\<rfloor> = k - 1"
      unfolding isIntegral_def .
    moreover have "\<lfloor>k - 1\<rfloor> = \<lfloor>k\<rfloor> - 1" by simp
    ultimately have "of_int \<lfloor>k\<rfloor> = k" by simp
    with frac show False unfolding isIntegral_def by simp
  qed
  then show ?thesis by (simp add: arrayGet_def)
qed

lemma matchesToReplace_chosen:
  assumes "eligible \<noteq> []" and "\<not> offArray change eligible"
  shows "matchesToReplace change eligible = map Some (chosenMatches change eligible)"
proof (cases "startIndex change \<noteq> None \<or> endIndex change \<noteq> None")
  case True
  then show ?thesis by (auto simp: matchesToReplace_def chosenMatches_def)
next
  case False
  note range = this
  show ?thesis
  proof (cases "replaceAll change = Some False")
    case False
    with range show ?thesis
      by (cases "replaceAll change") (auto simp: matchesToReplace_def chosenMatches_def)
  next
    case True
    show ?thesis
    proof (cases "occurrence change")
      case None
      with range True assms(1) show ?thesis
        by (simp add: matchesToReplace_def chosenMatches_def arrayGet_first)
    next
      case (Some k)
      show ?thesis
      proof (cases "0 < k \<and> k \<le> real (length eligible)")
        case True
        with range \<open>replaceAll change = Some False\<close> Some assms(2) have "isIntegral k"
          by (simp add: offArray_def)
        with True have "arrayGet eligible (k - 1) = Some (eligible ! nat (\<lfloor>k\<rfloor> - 1))"
          by (simp add: arrayGet_occurrence)
        with range \<open>replaceAll change = Some False\<close> Some True show ?thesis
          by (simp add: matchesToReplace_def chosenMatches_def)
      next
        case False
        with range \<open>replaceAll change = Some False\<close> Some assms(1) show ?thesis
          by (auto simp: matchesToReplace_def chosenMatches_def arrayGet_first)
      qed
    qed
  qed
qed

lemma matchesToReplace_offArray:
  assumes "offArray change eligible"
  shows "matchesToReplace change eligible = [None]"
proof -
  from assms obtain k where "occurrence change = Some k" "0 < k" "k \<le> real (length eligible)"
    "\<not> isIntegral k"
    by (auto simp: offArray_def split: option.splits)
  with assms show ?thesis
    by (simp add: matchesToReplace_def offArray_def arrayGet_fraction)
qed

lemma sortByIndexDescending_defined:
  "sortByIndexDescending (map Some ms) = map Some (sort_key (\<lambda>m. - int (index m)) ms)"
proof -
  have "List.map_filter (\<lambda>m. m) (map Some ms) = ms"
    by (induction ms) (simp_all add: List.map_filter_def)
  moreover have "filter (\<lambda>m. m = None) (map Some ms) = []"
    by (induction ms) simp_all
  ultimately show ?thesis by (simp add: sortByIndexDescending_def)
qed

lemma spliceLoop_defined: "spliceLoop rep (map Some ms) st = Some (spliceAll rep ms st)"
proof (induction ms arbitrary: st)
  case Nil
  show ?case by simp
next
  case (Cons m ms)
  obtain c ps n where st: "st = (c, ps, n)" by (cases st)
  show ?case unfolding st using Cons.IH by simp
qed

lemma applySlowPath_replacedExactly:
  assumes "\<not> offArray change (eligibleOf s change)"
  shows "applySlowPath s change =
     replacedExactly s change
       (if eligibleOf s change = [] then [] else chosenMatches change (eligibleOf s change))"
proof (cases "eligibleOf s change = []")
  case True
  then show ?thesis
    by (simp add: applySlowPath_def buildPattern_literal replacedExactly_def eligibleOf_def Let_def)
next
  case False
  let ?ms = "chosenMatches change (eligibleOf s change)"
  have asc: "ascending (length s) 0 ?ms"
    using ascending_chosenMatches [OF False] .
  have sel: "matchesToReplace change (eligibleOf s change) = map Some ?ms"
    using matchesToReplace_chosen [OF False assms] .
  have "spliceLoop (replaceText change)
      (sortByIndexDescending (matchesToReplace change (eligibleOf s change))) (s, [], 0)
      = Some (replaceMatches s (replaceText change) 0 ?ms, map index ?ms, length ?ms)"
    unfolding sel sortByIndexDescending_defined spliceLoop_defined
    using sort_descending [OF asc] spliceAll_rev [OF asc, of "replaceText change"] by simp
  with False show ?thesis
    by (simp add: applySlowPath_def buildPattern_literal replacedExactly_def eligibleOf_def Let_def)
qed

lemma applySlowPath_offArray:
  assumes "offArray change (eligibleOf s change)"
  shows "applySlowPath s change = None"
proof -
  from assms have ne: "eligibleOf s change \<noteq> []"
    by (auto simp: offArray_def split: option.splits)
  have "sortByIndexDescending [None] = [None :: regmatch option]"
    by (simp add: sortByIndexDescending_def List.map_filter_def)
  with ne matchesToReplace_offArray [OF assms] show ?thesis
    by (simp add: applySlowPath_def buildPattern_literal eligibleOf_def Let_def)
qed

lemma ascending_sorted:
  "ascending n k ms \<Longrightarrow> sorted_wrt (\<lambda>a b. index a < index b) ms"
proof (induction ms arbitrary: k)
  case Nil
  show ?case by simp
next
  case (Cons a ms)
  from Cons.prems have "ascending n (if mlength a = 0 then Suc (index a) else index a + mlength a) ms"
    by simp
  from Cons.IH [OF this] ascending_later [OF Cons.prems] show ?case by simp
qed

subsection \<open>The two paths\<close>

lemma no_match_exec:
  assumes "\<forall>i\<le>length s. \<not> matchesAt s c i"
  shows "regExpExec (literalPattern c) s 0 = None"
  unfolding regExpExec_None_iff
  using assms matchAtoms_literalPattern [of _ s c] by simp

lemma getSubstitution_literal:
  "CHR ''$'' \<notin> set rep \<Longrightarrow> getSubstitution matched str pos rep = rep"
  by (induction matched str pos rep rule: getSubstitution.induct) auto

lemma replaceLoop_literal:
  assumes "CHR ''$'' \<notin> set rep"
  shows "k' \<le> k \<Longrightarrow>
     replaceLoop S rep (regExpMatchAll R S k) k' acc =
       acc @ replaceMatches S rep k' (findAllMatches_loop S R k)"
proof (induction R S k arbitrary: k' acc rule: regExpMatchAll.induct)
  case (1 R S lastIndex)
  show ?case
  proof (cases "regExpExec R S lastIndex")
    case None
    then show ?thesis
      by (simp add: regExpMatchAll.simps [of R S lastIndex]
          findAllMatches_loop.simps [of S R lastIndex] substringFrom_def min_def)
  next
    case (Some r)
    obtain i e where r: "r = (i, e)" by (cases r)
    from regExpExec_bounds [of R S lastIndex i e] Some r
    have b: "lastIndex \<le> i" "i \<le> e" "e \<le> length S" by simp_all
    let ?next = "if e = i then Suc e else e"
    have next_eq: "(if e - i = 0 then Suc e else e) = ?next" using b by auto
    have ih: "replaceLoop S rep (regExpMatchAll R S ?next) e acc' =
        acc' @ replaceMatches S rep e (findAllMatches_loop S R ?next)" for acc'
      using "1.IH" [OF Some r [symmetric], of e acc'] by simp
    have sub: "substring S k' i = take (i - k') (drop k' S)"
      using b "1.prems" by (simp add: substring_def Let_def min_def max_def)
    show ?thesis
      using Some r b "1.prems" ih sub next_eq getSubstitution_literal [OF assms]
      by (simp add: regExpMatchAll.simps [of R S lastIndex]
          findAllMatches_loop.simps [of S R lastIndex])
  qed
qed

lemma length_regExpMatchAll:
  "length (regExpMatchAll R S k) = length (findAllMatches_loop S R k)"
proof (induction R S k rule: regExpMatchAll.induct)
  case (1 R S lastIndex)
  show ?case
  proof (cases "regExpExec R S lastIndex")
    case None
    then show ?thesis
      by (simp add: regExpMatchAll.simps [of R S lastIndex]
          findAllMatches_loop.simps [of S R lastIndex])
  next
    case (Some r)
    obtain i e where r: "r = (i, e)" by (cases r)
    from regExpExec_bounds [of R S lastIndex i e] Some r
    have "(if e - i = 0 then Suc e else e) = (if e = i then Suc e else e)" by auto
    with "1.IH" [OF Some r [symmetric]] Some r show ?thesis
      by (simp add: regExpMatchAll.simps [of R S lastIndex]
          findAllMatches_loop.simps [of S R lastIndex])
  qed
qed

lemma global_literalPattern: "global (literalPattern c)"
  by (simp add: literalPattern_def)

lemma matchesFound_fast:
  "(case js_match s (literalPattern c) of None \<Rightarrow> 0 | Some ms \<Rightarrow> length ms) =
     length (findAllMatches s (literalPattern c))"
proof (cases "regExpMatchAll (literalPattern c) s 0")
  case Nil
  then show ?thesis
    using length_regExpMatchAll [of "literalPattern c" s 0]
    by (simp add: js_match_def global_literalPattern findAllMatches_def)
next
  case (Cons r rs)
  then show ?thesis
    using length_regExpMatchAll [of "literalPattern c" s 0]
    by (simp add: js_match_def global_literalPattern findAllMatches_def)
qed

lemma fast_slow_agree_literal:
  assumes "CHR ''$'' \<notin> set (replaceText c)"
    and "replaceAll c = Some True \<or> replaceAll c = None"
    and "startIndex c = None" and "endIndex c = None"
    and "beforeContext c = None" and "afterContext c = None"
  shows "\<exists>t r r'. applyFastPath s c = Some (t, r) \<and> applySlowPath s c = Some (t, r') \<and>
           matchesFound r = matchesFound r' \<and> replacementsMade r = replacementsMade r'"
proof -
  let ?all = "findAllMatches s (literalPattern c)"
  have el: "eligibleOf s c = ?all"
    using assms by (simp add: eligibleOf_def eligibleMatches_def isInRange_def validateContext_def)
  have sel: "chosenMatches c ?all = ?all"
    using assms by (auto simp: chosenMatches_def)
  have "\<not> offArray c (eligibleOf s c)"
    using assms by (auto simp: offArray_def)
  from applySlowPath_replacedExactly [OF this]
  have slow: "applySlowPath s c = replacedExactly s c ?all"
    unfolding el using sel by simp
  have rep: "js_replace s (literalPattern c) (replaceText c) = replaceMatches s (replaceText c) 0 ?all"
    using replaceLoop_literal [OF assms(1), of 0 0 s "literalPattern c" "[]"]
    by (simp add: js_replace_def global_literalPattern findAllMatches_def)
  show ?thesis
  proof (cases "?all = []")
    case True
    then show ?thesis
      using slow matchesFound_fast [of s c]
      by (simp add: applyFastPath_def buildPattern_literal replacedExactly_def Let_def)
  next
    case False
    then show ?thesis
      using slow rep matchesFound_fast [of s c] assms(2)
      by (auto simp: applyFastPath_def buildPattern_literal replacedExactly_def Let_def)
  qed
qed

lemmas change_eval =
  applySingleChange_def applyFastPath_def applySlowPath_def usesAdvancedTargeting_def
  buildPattern_literal literalPattern_def simpleChange_def js_match_def js_replace_def
  findAllMatches_def findAllMatches_loop.simps regExpMatchAll.simps regExpExec.simps
  eligibleMatches_def matchesToReplace_def sortByIndexDescending_def arrayGet_def
  isIntegral_def List.map_filter_def isInRange_def validateContext_def
  substring_def substringFrom_def unitEq_def canonicalize_def atWordBoundary_def
  wordBefore_def wordAt_def isWordChar_def Let_def

section \<open>Claims about the change engine\<close>

text \<open>
  C1. The fast path and the slow path agree on a replace-all change without range or
  context. The code departs from this when the replacement text holds one of the
  substitution patterns of \<open>String.prototype.replace\<close>: for the content \<open>a\<close>, the search
  text \<open>a\<close> and the replacement text \<open>$&\<close>, the fast path substitutes the matched text and
  returns \<open>a\<close>, the slow path splices the replacement text as it is and returns \<open>$&\<close>.
  Both count one match and one replacement.
\<close>

theorem fast_path_substitutes_dollar_patterns:
  "applyFastPath ''a'' ((simpleChange ''a'' ''$&'')\<lparr>replaceAll := Some True\<rparr>) =
     Some (''a'', \<lparr>resSearchText = ''a'', resReplaceText = ''$&'', matchesFound = 1,
                  replacementsMade = 1, positions = None\<rparr>) \<and>
   applySlowPath ''a'' ((simpleChange ''a'' ''$&'')\<lparr>replaceAll := Some True\<rparr>) =
     Some (''$&'', \<lparr>resSearchText = ''a'', resReplaceText = ''$&'', matchesFound = 1,
                   replacementsMade = 1, positions = Some [0]\<rparr>)"
  by (simp add: change_eval)

text \<open>
  C4, as stated, at an occurrence of zero: the change is on the slow path, gives no range,
  has \<open>replaceAll = false\<close> and an occurrence outside \<open>1..2\<close>, and the first of the
  two eligible matches is replaced.
\<close>

theorem occurrence_zero_replaces_first:
  "usesAdvancedTargeting ((simpleChange ''foo'' ''qux'')\<lparr>replaceAll := Some False, occurrence := Some 0\<rparr>) \<and>
   length (eligibleOf ''foo bar foo''
     ((simpleChange ''foo'' ''qux'')\<lparr>replaceAll := Some False, occurrence := Some 0\<rparr>)) = 2 \<and>
   applySingleChange ''foo bar foo''
     ((simpleChange ''foo'' ''qux'')\<lparr>replaceAll := Some False, occurrence := Some 0\<rparr>) =
     Some (''qux bar foo'', \<lparr>resSearchText = ''foo'', resReplaceText = ''qux'', matchesFound = 2,
                            replacementsMade = 1, positions = Some [0]\<rparr>)"
  by (simp add: eligibleOf_def change_eval)

text \<open>
  C4, amended. For every change on the slow path: with a start or an end index, all
  eligible matches are replaced; otherwise, with \<open>replaceAll = false\<close>, an occurrence that
  is a positive whole number \<open>n\<close> replaces exactly the \<open>n\<close>-th eligible match, an occurrence
  beyond the number of eligible matches replaces nothing, and an absent, zero or negative
  occurrence replaces the first eligible match only. The splice loop runs over the chosen
  matches from the highest offset to the lowest, and the positions returned are in
  ascending order.
\<close>

theorem slow_path_selection:
  "usesAdvancedTargeting c \<longrightarrow>
     applySingleChange s c = applySlowPath s c \<and>
     (startIndex c \<noteq> None \<or> endIndex c \<noteq> None \<longrightarrow>
        applySlowPath s c = replacedExactly s c (eligibleOf s c)) \<and>
     (startIndex c = None \<and> endIndex c = None \<and> replaceAll c = Some False \<longrightarrow>
        (\<forall>n. occurrence c = Some (real n) \<and> 0 < n \<and> n \<le> length (eligibleOf s c) \<longrightarrow>
           applySlowPath s c = replacedExactly s c [eligibleOf s c ! (n - 1)]) \<and>
        (\<forall>k. occurrence c = Some k \<and> real (length (eligibleOf s c)) < k \<longrightarrow>
           applySlowPath s c = replacedExactly s c []) \<and>
        ((occurrence c = None \<or> (\<exists>k. occurrence c = Some k \<and> k \<le> 0)) \<and> eligibleOf s c \<noteq> [] \<longrightarrow>
           applySlowPath s c = replacedExactly s c [eligibleOf s c ! 0])) \<and>
     (eligibleOf s c \<noteq> [] \<longrightarrow>
        sorted_wrt (\<lambda>a b. index b < index a)
          (List.map_filter (\<lambda>m. m)
             (sortByIndexDescending (matchesToReplace c (eligibleOf s c))))) \<and>
     (\<forall>t r ps. applySlowPath s c = Some (t, r) \<and> positions r = Some ps \<longrightarrow> sorted_wrt (<) ps)"
proof (intro impI conjI allI)
  assume "usesAdvancedTargeting c"
  then show "applySingleChange s c = applySlowPath s c"
    by (simp add: applySingleChange_def)
next
  assume a: "startIndex c \<noteq> None \<or> endIndex c \<noteq> None"
  then have "\<not> offArray c (eligibleOf s c)"
    by (auto simp: offArray_def)
  from applySlowPath_replacedExactly [OF this] a
  show "applySlowPath s c = replacedExactly s c (eligibleOf s c)"
    by (auto simp: chosenMatches_def)
next
  fix n :: nat
  assume a: "startIndex c = None \<and> endIndex c = None \<and> replaceAll c = Some False"
    and b: "occurrence c = Some (real n) \<and> 0 < n \<and> n \<le> length (eligibleOf s c)"
  have "isIntegral (real n)"
    by (simp add: isIntegral_def)
  with b have "\<not> offArray c (eligibleOf s c)"
    by (simp add: offArray_def)
  moreover have "nat (\<lfloor>real n\<rfloor> - 1) = n - 1" by simp
  ultimately show "applySlowPath s c = replacedExactly s c [eligibleOf s c ! (n - 1)]"
    using applySlowPath_replacedExactly [of c s] a b
    by (auto simp: chosenMatches_def)
next
  fix k :: real
  assume a: "startIndex c = None \<and> endIndex c = None \<and> replaceAll c = Some False"
    and b: "occurrence c = Some k \<and> real (length (eligibleOf s c)) < k"
  then have "\<not> offArray c (eligibleOf s c)"
    by (simp add: offArray_def)
  moreover from b have "0 < k"
    using of_nat_0_le_iff [of "length (eligibleOf s c)", where ?'a = real] by linarith
  ultimately show "applySlowPath s c = replacedExactly s c []"
    using applySlowPath_replacedExactly [of c s] a b
    by (auto simp: chosenMatches_def)
next
  assume a: "startIndex c = None \<and> endIndex c = None \<and> replaceAll c = Some False"
    and b: "(occurrence c = None \<or> (\<exists>k. occurrence c = Some k \<and> k \<le> 0)) \<and> eligibleOf s c \<noteq> []"
  then have "\<not> offArray c (eligibleOf s c)"
    by (auto simp: offArray_def)
  from applySlowPath_replacedExactly [OF this] a b
  show "applySlowPath s c = replacedExactly s c [eligibleOf s c ! 0]"
    by (auto simp: chosenMatches_def)
next
  assume ne: "eligibleOf s c \<noteq> []"
  let ?ms = "chosenMatches c (eligibleOf s c)"
  have defined: "List.map_filter (\<lambda>m. m) (map Some xs) = xs" for xs :: "regmatch list"
    by (induction xs) (simp_all add: List.map_filter_def)
  show "sorted_wrt (\<lambda>a b. index b < index a)
          (List.map_filter (\<lambda>m. m)
             (sortByIndexDescending (matchesToReplace c (eligibleOf s c))))"
  proof (cases "offArray c (eligibleOf s c)")
    case True
    then show ?thesis
      by (simp add: matchesToReplace_offArray sortByIndexDescending_def List.map_filter_def)
  next
    case False
    have asc: "ascending (length s) 0 ?ms"
      using ascending_chosenMatches [OF ne] .
    have "sorted_wrt (\<lambda>a b. index b < index a) (rev ?ms)"
      using ascending_sorted [OF asc] by (simp add: sorted_wrt_rev)
    then show ?thesis
      using sort_descending [OF asc]
      by (simp add: matchesToReplace_chosen [OF ne False] sortByIndexDescending_defined defined)
  qed
next
  fix t r ps
  assume a: "applySlowPath s c = Some (t, r) \<and> positions r = Some ps"
  let ?ms = "if eligibleOf s c = [] then [] else chosenMatches c (eligibleOf s c)"
  have asc: "ascending (length s) 0 ?ms"
    using ascending_chosenMatches [of s c] by simp
  from a have "\<not> offArray c (eligibleOf s c)"
    using applySlowPath_offArray [of c s] by auto
  from applySlowPath_replacedExactly [OF this] a have "ps = map index ?ms"
    unfolding replacedExactly_def
    by (auto split: if_splits)
  then show "sorted_wrt (<) ps"
    using ascending_sorted [OF asc] by (simp add: sorted_wrt_map)
qed

theorem slow_path_selection_witness:
  "applySingleChange ''foo bar foo baz foo''
     ((simpleChange ''foo'' ''XXX'')\<lparr>startIndex := Some 8, endIndex := Some 15\<rparr>) =
     Some (''foo bar XXX baz foo'', \<lparr>resSearchText = ''foo'', resReplaceText = ''XXX'',
       matchesFound = 3, replacementsMade = 1, positions = Some [8]\<rparr>) \<and>
   applySingleChange ''foo bar foo baz foo''
     ((simpleChange ''foo'' ''qux'')\<lparr>replaceAll := Some False, occurrence := Some 2\<rparr>) =
     Some (''foo bar qux baz foo'', \<lparr>resSearchText = ''foo'', resReplaceText = ''qux'',
       matchesFound = 3, replacementsMade = 1, positions = Some [8]\<rparr>) \<and>
   applySingleChange ''foo bar foo baz foo''
     ((simpleChange ''foo'' ''qux'')\<lparr>replaceAll := Some False, occurrence := Some 4\<rparr>) =
     Some (''foo bar foo baz foo'', \<lparr>resSearchText = ''foo'', resReplaceText = ''qux'',
       matchesFound = 3, replacementsMade = 0, positions = None\<rparr>) \<and>
   applySingleChange ''foo bar foo baz foo''
     ((simpleChange ''foo'' ''qux'')\<lparr>replaceAll := Some False, beforeContext := Some ''bar ''\<rparr>) =
     Some (''foo bar qux baz foo'', \<lparr>resSearchText = ''foo'', resReplaceText = ''qux'',
       matchesFound = 3, replacementsMade = 1, positions = Some [8]\<rparr>)"
proof -
  let ?s = "''foo bar foo baz foo''"
  let ?m0 = "\<lparr>index = 0, mlength = 3, mtext = ''foo''\<rparr>"
  let ?m8 = "\<lparr>index = 8, mlength = 3, mtext = ''foo''\<rparr>"
  let ?m16 = "\<lparr>index = 16, mlength = 3, mtext = ''foo''\<rparr>"
  let ?range = "(simpleChange ''foo'' ''XXX'')\<lparr>startIndex := Some 8, endIndex := Some 15\<rparr>"
  let ?second = "(simpleChange ''foo'' ''qux'')\<lparr>replaceAll := Some False, occurrence := Some 2\<rparr>"
  let ?fourth = "(simpleChange ''foo'' ''qux'')\<lparr>replaceAll := Some False, occurrence := Some 4\<rparr>"
  let ?ctx = "(simpleChange ''foo'' ''qux'')\<lparr>replaceAll := Some False, beforeContext := Some ''bar ''\<rparr>"
  have all1: "findAllMatches ?s (literalPattern ?range) = [?m0, ?m8, ?m16]"
    by (simp add: change_eval)
  have all2: "findAllMatches ?s (literalPattern ?second) = [?m0, ?m8, ?m16]"
    by (simp add: change_eval)
  have all3: "findAllMatches ?s (literalPattern ?fourth) = [?m0, ?m8, ?m16]"
    by (simp add: change_eval)
  have all4: "findAllMatches ?s (literalPattern ?ctx) = [?m0, ?m8, ?m16]"
    by (simp add: change_eval)
  have e1: "eligibleOf ?s ?range = [?m8]"
    unfolding eligibleOf_def all1 by (simp add: change_eval)
  have e2: "eligibleOf ?s ?second = [?m0, ?m8, ?m16]"
    unfolding eligibleOf_def all2 by (simp add: change_eval)
  have e3: "eligibleOf ?s ?fourth = [?m0, ?m8, ?m16]"
    unfolding eligibleOf_def all3 by (simp add: change_eval)
  have e4: "eligibleOf ?s ?ctx = [?m8]"
    unfolding eligibleOf_def all4 by (simp add: change_eval)
  have r1: "applySingleChange ?s ?range = replacedExactly ?s ?range [?m8]"
    using slow_path_selection [of ?range ?s] e1
    by (simp add: usesAdvancedTargeting_def simpleChange_def)
  have r2: "applySingleChange ?s ?second = replacedExactly ?s ?second [?m8]"
    using slow_path_selection [of ?second ?s] e2
    by (simp add: usesAdvancedTargeting_def simpleChange_def)
  have r3: "applySingleChange ?s ?fourth = replacedExactly ?s ?fourth []"
    using slow_path_selection [of ?fourth ?s] e3
    by (simp add: usesAdvancedTargeting_def simpleChange_def)
  have r4: "applySingleChange ?s ?ctx = replacedExactly ?s ?ctx [?m8]"
    using slow_path_selection [of ?ctx ?s] e4
    by (simp add: usesAdvancedTargeting_def simpleChange_def)
  show ?thesis
    unfolding r1 r2 r3 r4 replacedExactly_def all1 all2 all3 all4
    by (simp add: simpleChange_def)
qed

text \<open>Left out of C4 as amended: an occurrence that is positive, within the number of
  eligible matches and not a whole number. The array read is \<open>undefined\<close> and the splice
  loop throws.\<close>

lemma fractional_occurrence_throws:
  "applySingleChange ''aa''
     ((simpleChange ''a'' ''b'')\<lparr>replaceAll := Some False, occurrence := Some (3 / 2)\<rparr>) = None"
  by (simp add: change_eval)

text \<open>
  C6. When the search text of a change matches at no offset of the content, under the
  \<open>matchCase\<close> and \<open>matchWholeWord\<close> settings of the change, the fast path, the slow path
  and \<open>applySingleChange\<close> all return the content as it was, with \<open>matchesFound = 0\<close> and
  \<open>replacementsMade = 0\<close>.
\<close>

theorem no_match_unchanged:
  assumes "\<forall>i\<le>length s. \<not> matchesAt s c i"
  shows "applyFastPath s c = Some (s, unchanged c) \<and>
         applySlowPath s c = Some (s, unchanged c) \<and>
         applySingleChange s c = Some (s, unchanged c)"
proof -
  have ex: "regExpExec (literalPattern c) s 0 = None"
    using no_match_exec [OF assms] .
  have all: "findAllMatches s (literalPattern c) = []"
    using ex by (simp add: findAllMatches_def findAllMatches_loop.simps [of s "literalPattern c" 0])
  have glob: "regExpMatchAll (literalPattern c) s 0 = []"
    using ex by (simp add: regExpMatchAll.simps [of "literalPattern c" s 0])
  have fast: "applyFastPath s c = Some (s, unchanged c)"
    using glob
    by (simp add: applyFastPath_def buildPattern_literal js_match_def global_literalPattern unchanged_def)
  have slow: "applySlowPath s c = Some (s, unchanged c)"
    using all
    by (simp add: applySlowPath_def buildPattern_literal eligibleMatches_def unchanged_def)
  show ?thesis using fast slow by (simp add: applySingleChange_def)
qed

theorem no_match_unchanged_witness:
  "applyFastPath ''hello'' (simpleChange ''xyz'' ''q'') =
     Some (''hello'', unchanged (simpleChange ''xyz'' ''q'')) \<and>
   applySlowPath ''hello'' (simpleChange ''xyz'' ''q'') =
     Some (''hello'', unchanged (simpleChange ''xyz'' ''q'')) \<and>
   applySingleChange ''hello'' (simpleChange ''xyz'' ''q'') =
     Some (''hello'', unchanged (simpleChange ''xyz'' ''q''))"
proof -
  have none: "\<forall>i\<le>length ''hello''. \<not> matchesAt ''hello'' (simpleChange ''xyz'' ''q'') i"
  proof (intro allI impI)
    fix i :: nat
    have "\<not> unitEq False (''hello'' ! i) (''xyz'' ! 0)" if "i \<le> 2"
    proof -
      from that have "i = 0 \<or> i = 1 \<or> i = 2" by auto
      then show ?thesis by (auto simp: unitEq_def)
    qed
    then show "\<not> matchesAt ''hello'' (simpleChange ''xyz'' ''q'') i"
      by (auto simp: matchesAt_def occursAt_def simpleChange_def)
  qed
  from no_match_unchanged [OF none] show ?thesis .
qed

text \<open>
  C9, as stated, at a change that also gives a start index: \<open>replaceAll\<close> is false and
  the occurrence is zero, yet both eligible matches are replaced, since a range takes
  precedence over the occurrence.
\<close>

theorem nonpositive_occurrence_with_range_replaces_all:
  "replaceAll ((simpleChange ''a'' ''b'')\<lparr>replaceAll := Some False, occurrence := Some 0,
       startIndex := Some 0\<rparr>) = Some False \<and>
   occurrence ((simpleChange ''a'' ''b'')\<lparr>replaceAll := Some False, occurrence := Some 0,
       startIndex := Some 0\<rparr>) = Some 0 \<and>
   applySingleChange ''aa''
     ((simpleChange ''a'' ''b'')\<lparr>replaceAll := Some False, occurrence := Some 0,
       startIndex := Some 0\<rparr>) =
     Some (''bb'', \<lparr>resSearchText = ''a'', resReplaceText = ''b'', matchesFound = 2,
                   replacementsMade = 2, positions = Some [0, 1]\<rparr>)"
  by (simp add: change_eval)

text \<open>
  C9, amended. For every change with \<open>replaceAll = false\<close>, an occurrence that is zero or
  negative, and neither a start nor an end index, \<open>applySingleChange\<close> takes the slow path
  and, when there is an eligible match, replaces the first one and no other, so that
  \<open>replacementsMade = 1\<close>.
\<close>

theorem nonpositive_occurrence_first:
  "replaceAll c = Some False \<and> occurrence c = Some k \<and> k \<le> 0 \<and>
   startIndex c = None \<and> endIndex c = None \<longrightarrow>
     usesAdvancedTargeting c \<and>
     applySingleChange s c = applySlowPath s c \<and>
     (eligibleOf s c \<noteq> [] \<longrightarrow>
        applySingleChange s c = replacedExactly s c [hd (eligibleOf s c)] \<and>
        (\<exists>t r. applySingleChange s c = Some (t, r) \<and> replacementsMade r = 1))"
proof (intro impI)
  assume a: "replaceAll c = Some False \<and> occurrence c = Some k \<and> k \<le> 0 \<and>
    startIndex c = None \<and> endIndex c = None"
  then have adv: "usesAdvancedTargeting c"
    by (simp add: usesAdvancedTargeting_def)
  then have same: "applySingleChange s c = applySlowPath s c"
    by (simp add: applySingleChange_def)
  from a have "\<not> offArray c (eligibleOf s c)"
    by (simp add: offArray_def)
  from applySlowPath_replacedExactly [OF this]
  have first: "applySlowPath s c = replacedExactly s c [hd (eligibleOf s c)]"
    if "eligibleOf s c \<noteq> []"
    using a that by (simp add: chosenMatches_def hd_conv_nth)
  show "usesAdvancedTargeting c \<and>
     applySingleChange s c = applySlowPath s c \<and>
     (eligibleOf s c \<noteq> [] \<longrightarrow>
        applySingleChange s c = replacedExactly s c [hd (eligibleOf s c)] \<and>
        (\<exists>t r. applySingleChange s c = Some (t, r) \<and> replacementsMade r = 1))"
    using adv same first by (auto simp: replacedExactly_def)
qed

theorem nonpositive_occurrence_first_witness:
  "applySingleChange ''aa''
     ((simpleChange ''a'' ''b'')\<lparr>replaceAll := Some False, occurrence := Some (- 1)\<rparr>) =
     Some (''ba'', \<lparr>resSearchText = ''a'', resReplaceText = ''b'', matchesFound = 2,
                   replacementsMade = 1, positions = Some [0]\<rparr>)"
proof -
  let ?c = "(simpleChange ''a'' ''b'')\<lparr>replaceAll := Some False, occurrence := Some (- 1)\<rparr>"
  let ?m0 = "\<lparr>index = 0, mlength = 1, mtext = ''a''\<rparr>"
  let ?m1 = "\<lparr>index = 1, mlength = 1, mtext = ''a''\<rparr>"
  have all: "findAllMatches ''aa'' (literalPattern ?c) = [?m0, ?m1]"
    by (simp add: change_eval)
  have el: "eligibleOf ''aa'' ?c = [?m0, ?m1]"
    unfolding eligibleOf_def all by (simp add: change_eval)
  have "applySingleChange ''aa'' ?c = replacedExactly ''aa'' ?c [?m0]"
    using nonpositive_occurrence_first [of ?c "- 1" "''aa''"] el
    by (auto simp: simpleChange_def)
  then show ?thesis
    unfolding replacedExactly_def all by (simp add: simpleChange_def)
qed

section \<open>Properties of the store, the token and the search\<close>

subsection \<open>The index follows the documents\<close>

lemma set_docWords: "t \<in> set (docWords doc) \<longleftrightarrow> hasWord doc t"
  by (auto simp: docWords_def newSet_def hasWord_def)

lemma indexDocument_fold: "indexDocument doc wi = fold (addStep (docId doc)) (docWords doc) wi"
  by (simp add: indexDocument_def addStep_def [abs_def])

lemma removeFromIndex_fold: "removeFromIndex doc wi = fold (delStep (docId doc)) (docWords doc) wi"
  by (simp add: removeFromIndex_def delStep_def [abs_def])

lemma post_addStep:
  "post (addStep d w wi) t = (if t = w then insert d (post wi t) else post wi t)"
  by (auto simp: post_def addStep_def setAdd_def split: option.splits)

lemma post_delStep:
  "post (delStep d w wi) t = (if t = w then post wi t - {d} else post wi t)"
  by (auto simp: post_def delStep_def setDelete_def Let_def filter_empty_conv split: option.splits)

lemma post_fold_add:
  "post (fold (addStep d) ws wi) t = (if t \<in> set ws then insert d (post wi t) else post wi t)"
  by (induction ws arbitrary: wi) (auto simp: post_addStep)

lemma post_fold_del:
  "post (fold (delStep d) ws wi) t = (if t \<in> set ws then post wi t - {d} else post wi t)"
  by (induction ws arbitrary: wi) (auto simp: post_delStep)

lemma noEmpty_addStep: "noEmpty wi \<Longrightarrow> noEmpty (addStep d w wi)"
  by (auto simp: noEmpty_def addStep_def setAdd_def split: option.splits)

lemma noEmpty_delStep: "noEmpty wi \<Longrightarrow> noEmpty (delStep d w wi)"
  by (auto simp: noEmpty_def delStep_def Let_def split: option.splits)

lemma allDistinct_addStep: "allDistinct wi \<Longrightarrow> allDistinct (addStep d w wi)"
  by (auto simp: allDistinct_def addStep_def setAdd_def split: option.splits if_splits)

lemma allDistinct_delStep: "allDistinct wi \<Longrightarrow> allDistinct (delStep d w wi)"
  by (auto simp: allDistinct_def delStep_def setDelete_def Let_def split: option.splits if_splits)

lemma noEmpty_fold_add: "noEmpty wi \<Longrightarrow> noEmpty (fold (addStep d) ws wi)"
  by (induction ws arbitrary: wi) (auto simp: noEmpty_addStep)

lemma noEmpty_fold_del: "noEmpty wi \<Longrightarrow> noEmpty (fold (delStep d) ws wi)"
  by (induction ws arbitrary: wi) (auto simp: noEmpty_delStep)

lemma allDistinct_fold_add: "allDistinct wi \<Longrightarrow> allDistinct (fold (addStep d) ws wi)"
  by (induction ws arbitrary: wi) (auto simp: allDistinct_addStep)

lemma allDistinct_fold_del: "allDistinct wi \<Longrightarrow> allDistinct (fold (delStep d) ws wi)"
  by (induction ws arbitrary: wi) (auto simp: allDistinct_delStep)

lemma post_indexDocument:
  "post (indexDocument doc wi) t = (if hasWord doc t then insert (docId doc) (post wi t) else post wi t)"
  by (simp add: indexDocument_fold post_fold_add set_docWords)

lemma post_removeFromIndex:
  "post (removeFromIndex doc wi) t = (if hasWord doc t then post wi t - {docId doc} else post wi t)"
  by (simp add: removeFromIndex_fold post_fold_del set_docWords)

lemma storeInv_iff:
  "storeInv st \<longleftrightarrow>
     (\<forall>d doc. documents st d = Some doc \<longrightarrow> docId doc = d) \<and>
     allDistinct (wordIndex st) \<and> noEmpty (wordIndex st) \<and>
     (\<forall>t d. d \<in> post (wordIndex st) t \<longleftrightarrow> (\<exists>doc. documents st d = Some doc \<and> hasWord doc t))"
  by (auto simp: storeInv_def wellFormed_def indexExact_def allDistinct_def noEmpty_def)

lemma storeInv_empty: "storeInv emptyStore"
  by (simp add: storeInv_iff emptyStore_def allDistinct_def noEmpty_def post_def)

lemma post_remove_stored:
  assumes "storeInv st" and "documents st ident = Some doc"
  shows "post (removeFromIndex doc (wordIndex st)) t = post (wordIndex st) t - {ident}"
proof -
  from assms have key: "docId doc = ident" by (simp add: storeInv_iff)
  from assms have "ident \<in> post (wordIndex st) t \<longleftrightarrow> hasWord doc t"
    by (auto simp: storeInv_iff)
  then show ?thesis by (auto simp: post_removeFromIndex key)
qed

lemma storeInv_replace:
  assumes inv: "storeInv st" and stored: "documents st ident = Some doc"
    and same: "docId doc' = docId doc"
  shows "storeInv \<lparr>documents = (documents st)(ident \<mapsto> doc'),
                   wordIndex = indexDocument doc' (removeFromIndex doc (wordIndex st))\<rparr>"
proof -
  from inv stored have key: "docId doc = ident" by (simp add: storeInv_iff)
  have p: "post (indexDocument doc' (removeFromIndex doc (wordIndex st))) t =
      (if hasWord doc' t then insert ident (post (wordIndex st) t - {ident})
       else post (wordIndex st) t - {ident})" for t
    by (simp add: post_indexDocument post_remove_stored [OF inv stored] same key)
  from inv have ex: "d \<in> post (wordIndex st) t \<longleftrightarrow> (\<exists>x. documents st d = Some x \<and> hasWord x t)" for t d
    by (simp add: storeInv_iff)
  have "noEmpty (indexDocument doc' (removeFromIndex doc (wordIndex st)))"
    using inv by (simp add: storeInv_iff indexDocument_fold removeFromIndex_fold
        noEmpty_fold_add noEmpty_fold_del)
  moreover have "allDistinct (indexDocument doc' (removeFromIndex doc (wordIndex st)))"
    using inv by (simp add: storeInv_iff indexDocument_fold removeFromIndex_fold
        allDistinct_fold_add allDistinct_fold_del)
  moreover have "\<forall>d x. ((documents st)(ident \<mapsto> doc')) d = Some x \<longrightarrow> docId x = d"
    using inv same key by (auto simp: storeInv_iff)
  moreover have "\<forall>t d. d \<in> post (indexDocument doc' (removeFromIndex doc (wordIndex st))) t \<longleftrightarrow>
      (\<exists>x. ((documents st)(ident \<mapsto> doc')) d = Some x \<and> hasWord x t)"
    by (auto simp: p ex)
  ultimately show ?thesis by (simp add: storeInv_iff)
qed

lemma storeInv_createDocument:
  assumes inv: "storeInv st" and fresh: "documents st uuid = None"
  shows "storeInv (snd (createDocument uuid now input st))"
proof -
  let ?doc = "fst (createDocument uuid now input st)"
  have id: "docId ?doc = uuid" by (simp add: createDocument_def Let_def)
  have st': "snd (createDocument uuid now input st) =
      \<lparr>documents = (documents st)(uuid \<mapsto> ?doc), wordIndex = indexDocument ?doc (wordIndex st)\<rparr>"
    by (simp add: createDocument_def Let_def)
  from inv have ex: "d \<in> post (wordIndex st) t \<longleftrightarrow> (\<exists>x. documents st d = Some x \<and> hasWord x t)" for t d
    by (simp add: storeInv_iff)
  have "noEmpty (indexDocument ?doc (wordIndex st))"
    using inv by (simp add: storeInv_iff indexDocument_fold noEmpty_fold_add)
  moreover have "allDistinct (indexDocument ?doc (wordIndex st))"
    using inv by (simp add: storeInv_iff indexDocument_fold allDistinct_fold_add)
  moreover have "\<forall>d x. ((documents st)(uuid \<mapsto> ?doc)) d = Some x \<longrightarrow> docId x = d"
    using inv id by (auto simp: storeInv_iff)
  moreover have "\<forall>t d. d \<in> post (indexDocument ?doc (wordIndex st)) t \<longleftrightarrow>
      (\<exists>x. ((documents st)(uuid \<mapsto> ?doc)) d = Some x \<and> hasWord x t)"
    using fresh by (auto simp: post_indexDocument id ex)
  ultimately show ?thesis unfolding st' by (simp add: storeInv_iff)
qed

lemma storeInv_updateDocument:
  assumes inv: "storeInv st"
  shows "storeInv (snd (updateDocument ident updates now st))"
proof (cases "documents st ident")
  case None
  with inv show ?thesis by (simp add: updateDocument_def)
next
  case (Some doc)
  obtain doc' where r: "fst (updateDocument ident updates now st) = Some doc'"
    using Some by (simp add: updateDocument_def Let_def)
  have same: "docId doc' = docId doc"
    using r Some by (auto simp: updateDocument_def Let_def split: option.splits)
  have "snd (updateDocument ident updates now st) =
      \<lparr>documents = (documents st)(ident \<mapsto> doc'),
       wordIndex = indexDocument doc' (removeFromIndex doc (wordIndex st))\<rparr>"
    using r Some by (simp add: updateDocument_def Let_def)
  then show ?thesis using storeInv_replace [OF inv Some same] by simp
qed

lemma storeInv_deleteDocument:
  assumes inv: "storeInv st"
  shows "storeInv (snd (deleteDocument ident st))"
proof (cases "documents st ident")
  case None
  with inv show ?thesis by (simp add: deleteDocument_def)
next
  case (Some doc)
  from inv have ex: "d \<in> post (wordIndex st) t \<longleftrightarrow> (\<exists>x. documents st d = Some x \<and> hasWord x t)" for t d
    by (simp add: storeInv_iff)
  from inv have keys: "documents st d = Some x \<Longrightarrow> docId x = d" for d x
    by (simp add: storeInv_iff)
  have st': "snd (deleteDocument ident st) =
      \<lparr>documents = (documents st)(ident := None), wordIndex = removeFromIndex doc (wordIndex st)\<rparr>"
    using Some by (simp add: deleteDocument_def)
  have "noEmpty (removeFromIndex doc (wordIndex st))"
    using inv by (simp add: storeInv_iff removeFromIndex_fold noEmpty_fold_del)
  moreover have "allDistinct (removeFromIndex doc (wordIndex st))"
    using inv by (simp add: storeInv_iff removeFromIndex_fold allDistinct_fold_del)
  moreover have "\<forall>d x. ((documents st)(ident := None)) d = Some x \<longrightarrow> docId x = d"
    using keys by auto
  moreover have "\<forall>t d. d \<in> post (removeFromIndex doc (wordIndex st)) t \<longleftrightarrow>
      (\<exists>x. ((documents st)(ident := None)) d = Some x \<and> hasWord x t)"
    using Some by (auto simp: post_remove_stored [OF inv Some] ex)
  ultimately show ?thesis unfolding st' by (simp add: storeInv_iff)
qed

lemma patchDocument_stored:
  assumes "documents st ident = Some doc"
  shows "patchDocument ident patch now st =
     (Some (patched doc patch now),
      \<lparr>documents = (documents st)(ident \<mapsto> patched doc patch now),
       wordIndex =
         (if (case title_patch patch of None \<Rightarrow> False | Some t \<Rightarrow> t \<noteq> title doc)
          then indexDocument (patched doc patch now) (removeFromIndex doc (wordIndex st))
          else wordIndex st)\<rparr>)"
  using assms
  by (cases "title_patch patch"; cases "author_patch patch"; cases "tags_patch patch")
     (simp_all add: patchDocument_def patched_def Let_def)

lemma storeInv_same_words:
  assumes inv: "storeInv st" and stored: "documents st ident = Some doc"
    and same: "docId doc' = docId doc"
    and words: "\<And>t. hasWord doc' t = hasWord doc t"
  shows "storeInv \<lparr>documents = (documents st)(ident \<mapsto> doc'), wordIndex = wordIndex st\<rparr>"
proof -
  from inv stored have key: "docId doc = ident" by (simp add: storeInv_iff)
  from inv have ex: "d \<in> post (wordIndex st) t \<longleftrightarrow> (\<exists>x. documents st d = Some x \<and> hasWord x t)" for t d
    by (simp add: storeInv_iff)
  have "\<forall>d x. ((documents st)(ident \<mapsto> doc')) d = Some x \<longrightarrow> docId x = d"
    using inv same key by (auto simp: storeInv_iff)
  moreover have "\<forall>t d. d \<in> post (wordIndex st) t \<longleftrightarrow>
      (\<exists>x. ((documents st)(ident \<mapsto> doc')) d = Some x \<and> hasWord x t)"
    using stored by (auto simp: ex words)
  moreover have "allDistinct (wordIndex st)" and "noEmpty (wordIndex st)"
    using inv by (simp_all add: storeInv_iff)
  ultimately show ?thesis by (simp add: storeInv_iff)
qed

lemma storeInv_patchDocument:
  assumes inv: "storeInv st"
  shows "storeInv (snd (patchDocument ident patch now st))"
proof (cases "documents st ident")
  case None
  with inv show ?thesis by (simp add: patchDocument_def)
next
  case (Some doc)
  define doc' where "doc' = patched doc patch now"
  have same: "docId doc' = docId doc" and body: "content doc' = content doc"
    by (simp_all add: doc'_def patched_def)
  show ?thesis
  proof (cases "title_patch patch")
    case None
    have "title doc' = title doc"
      using None by (simp add: doc'_def patched_def)
    then have words: "hasWord doc' t = hasWord doc t" for t
      by (simp add: hasWord_def body)
    have "snd (patchDocument ident patch now st) =
        \<lparr>documents = (documents st)(ident \<mapsto> doc'), wordIndex = wordIndex st\<rparr>"
      using None by (simp add: patchDocument_stored [OF Some] doc'_def)
    then show ?thesis using storeInv_same_words [OF inv Some same words] by simp
  next
    case (Some t)
    note ttl = this
    show ?thesis
    proof (cases "t = title doc")
      case True
      have "title doc' = title doc"
        using ttl True by (simp add: doc'_def patched_def)
      then have words: "hasWord doc' w = hasWord doc w" for w
        by (simp add: hasWord_def body)
      have "snd (patchDocument ident patch now st) =
          \<lparr>documents = (documents st)(ident \<mapsto> doc'), wordIndex = wordIndex st\<rparr>"
        using ttl True by (simp add: patchDocument_stored [OF \<open>documents st ident = Some doc\<close>] doc'_def)
      then show ?thesis
        using storeInv_same_words [OF inv \<open>documents st ident = Some doc\<close> same words] by simp
    next
      case False
      have "snd (patchDocument ident patch now st) =
          \<lparr>documents = (documents st)(ident \<mapsto> doc'),
           wordIndex = indexDocument doc' (removeFromIndex doc (wordIndex st))\<rparr>"
        using ttl False by (simp add: patchDocument_stored [OF \<open>documents st ident = Some doc\<close>] doc'_def)
      then show ?thesis
        using storeInv_replace [OF inv \<open>documents st ident = Some doc\<close> same] by simp
    qed
  qed
qed

subsection \<open>Lookup and intersection\<close>

lemma length_map_filter_less:
  "x \<in> set xs \<Longrightarrow> f x = None \<Longrightarrow> length (List.map_filter f xs) < length xs"
  unfolding List.map_filter_def
  by (simp add: length_filter_less)

lemma words_two_subset:
  "set (findDocumentsByWords st [w1, w2]) \<subseteq> set (findDocumentsByWord st w1) \<and>
   set (findDocumentsByWords st [w1, w2]) \<subseteq> set (findDocumentsByWord st w2)"
proof (cases "wordIndex st (toLowerCase w1)")
  case None
  then show ?thesis
    by (simp add: findDocumentsByWords_def List.map_filter_def)
next
  case (Some p)
  note p = this
  show ?thesis
  proof (cases "wordIndex st (toLowerCase w2)")
    case None
    with p show ?thesis
      by (simp add: findDocumentsByWords_def List.map_filter_def)
  next
    case (Some q)
    show ?thesis
    proof (cases "p = [] \<or> q = []")
      case True
      with p Some show ?thesis
        by (auto simp: findDocumentsByWords_def List.map_filter_def)
    next
      case False
      with p Some have "List.map_filter
          (\<lambda>word. case wordIndex st (toLowerCase word) of
                     None \<Rightarrow> None
                   | Some docIds \<Rightarrow> if 0 < length docIds then Some docIds else None)
          [w1, w2] = [p, q]"
        by (simp add: List.map_filter_def)
      then have "findDocumentsByWords st [w1, w2] =
          (if length p \<le> length q then filter (\<lambda>ident. ident \<in> set q) p
           else filter (\<lambda>ident. ident \<in> set p) q)"
        using False by (simp add: findDocumentsByWords_def)
      with p Some show ?thesis
        by (auto simp: findDocumentsByWord_def)
    qed
  qed
qed

lemma words_short_circuit:
  assumes "w \<in> set ws" and "findDocumentsByWord st w = []"
  shows "findDocumentsByWords st ws = []"
proof (cases ws)
  case Nil
  then show ?thesis by (simp add: findDocumentsByWords_def)
next
  case (Cons a as)
  show ?thesis
  proof (cases as)
    case Nil
    with Cons assms show ?thesis by (simp add: findDocumentsByWords_def)
  next
    case (Cons b bs)
    let ?f = "\<lambda>word. case wordIndex st (toLowerCase word) of
                     None \<Rightarrow> None
                   | Some docIds \<Rightarrow> if 0 < length docIds then Some docIds else None"
    have "?f w = None"
      using assms(2) by (auto simp: findDocumentsByWord_def split: option.splits)
    with length_map_filter_less [of w ws ?f] assms(1)
    have "length (List.map_filter ?f ws) \<noteq> length ws" by simp
    then show ?thesis
      using \<open>ws = a # as\<close> Cons by (simp add: findDocumentsByWords_def)
  qed
qed

subsection \<open>Search\<close>

lemma below_limit_step:
  assumes "\<not> limit \<le> real n"
  shows "Suc n \<le> nat \<lceil>limit\<rceil>"
proof -
  from assms have "real_of_int (int n) < limit" by simp
  then have "int n < \<lceil>limit\<rceil>" by (simp only: less_ceiling_iff)
  then show ?thesis by linarith
qed

lemma searchInDocument_loop_bound:
  "length (searchInDocument_loop doc R cs limit k found) \<le> max (nat \<lceil>limit\<rceil>) (length found)"
proof (induction doc R cs limit k found rule: searchInDocument_loop.induct)
  case (1 doc searchPattern size' limit lastIndex found)
  show ?case
  proof (cases "regExpExec searchPattern (content doc) lastIndex")
    case None
    then show ?thesis
      by (simp add: searchInDocument_loop.simps [of doc searchPattern size' limit lastIndex found])
  next
    case (Some r)
    obtain i e where r: "r = (i, e)" by (cases r)
    show ?thesis
    proof (cases "limit \<le> real (length found)")
      case True
      with Some r show ?thesis
        by (simp add: searchInDocument_loop.simps [of doc searchPattern size' limit lastIndex found])
    next
      case False
      from "1.IH" [OF Some r [symmetric] False] below_limit_step [OF False] False Some r
      show ?thesis
        by (simp add: searchInDocument_loop.simps [of doc searchPattern size' limit lastIndex found])
    qed
  qed
qed

lemma searchLoop_bound:
  "length (searchLoop docs R cs limit found) \<le> max (nat \<lceil>limit\<rceil>) (length found)"
proof (induction docs arbitrary: found)
  case Nil
  show ?case by simp
next
  case (Cons doc docs)
  show ?case
  proof (cases "limit \<le> real (length found)")
    case True
    then show ?thesis by simp
  next
    case False
    have "length (searchInDocument doc R cs limit found) \<le> nat \<lceil>limit\<rceil>"
      using searchInDocument_loop_bound [of doc R cs limit 0 found] below_limit_step [OF False]
      by (simp add: searchInDocument_def)
    with Cons.IH [of "searchInDocument doc R cs limit found"] False show ?thesis
      by simp
  qed
qed

lemma newRegExp_escaped:
  "newRegExp (escapeRegex s) flags =
     Some \<lparr>source = map Lit s, ignoreCase = (CHR ''i'' \<in> set flags), global = (CHR ''g'' \<in> set flags)\<rparr>"
  using parsePattern_escapeRegex [of s "[]"] by (simp add: newRegExp_def)

subsection \<open>Tokens\<close>

lemma digit_char: "d < 10 \<Longrightarrow> isDigit (''0123456789'' ! d)"
  unfolding isDigit_def by (rule nth_mem) simp

lemma showNat_digits: "\<forall>c \<in> set (showNat n). isDigit c"
proof (induction n rule: showNat.induct)
  case (1 n)
  show ?case
  proof (cases "n < 10")
    case True
    then show ?thesis by (simp add: showNat.simps [of n] digit_char)
  next
    case False
    with "1.IH" show ?thesis
      by (simp add: showNat.simps [of n] digit_char)
  qed
qed

lemma showNat_nonempty: "showNat n \<noteq> []"
  by (simp add: showNat.simps [of n])

lemma digit_inj:
  "a < 10 \<Longrightarrow> b < 10 \<Longrightarrow> ''0123456789'' ! a = ''0123456789'' ! b \<Longrightarrow> a = b"
  using nth_eq_iff_index_eq [of "''0123456789''" a b] by simp

lemma showNat_inj: "showNat n = showNat m \<Longrightarrow> n = m"
proof (induction n arbitrary: m rule: showNat.induct)
  case (1 n)
  show ?case
  proof (cases "n < 10")
    case small: True
    show ?thesis
    proof (cases "m < 10")
      case True
      with small "1.prems" show ?thesis
        by (simp add: showNat.simps [of n] showNat.simps [of m] digit_inj)
    next
      case False
      with small "1.prems" showNat_nonempty [of "m div 10"] show ?thesis
        by (simp add: showNat.simps [of n] showNat.simps [of m])
    qed
  next
    case big: False
    show ?thesis
    proof (cases "m < 10")
      case True
      with big "1.prems" showNat_nonempty [of "n div 10"] show ?thesis
        by (simp add: showNat.simps [of n] showNat.simps [of m])
    next
      case False
      with big "1.prems" have a: "showNat (n div 10) = showNat (m div 10)"
        and b: "''0123456789'' ! (n mod 10) = ''0123456789'' ! (m mod 10)"
        by (simp_all add: showNat.simps [of n] showNat.simps [of m])
      from "1.IH" [OF big a] have "n div 10 = m div 10" .
      moreover from b have "n mod 10 = m mod 10"
        by (intro digit_inj) simp_all
      ultimately have "10 * (n div 10) + n mod 10 = 10 * (m div 10) + m mod 10" by simp
      then show ?thesis by simp
    qed
  qed
qed

lemma splitOn_absent: "sep \<notin> set s \<Longrightarrow> splitOn sep cur s = [rev cur @ s]"
  by (induction s arbitrary: cur) auto

lemma append_sep_eq:
  assumes "xs @ c # r = ys @ c # r'" and "c \<notin> set xs" and "c \<notin> set ys"
  shows "xs = ys"
proof -
  have tw: "c \<notin> set zs \<Longrightarrow> takeWhile (\<lambda>x. x \<noteq> c) (zs @ c # t) = zs" for zs t
    by (induction zs) auto
  from tw [OF assms(2), of r] tw [OF assms(3), of r'] assms(1) show ?thesis by simp
qed

lemma etag_shape:
  "generateETag md5hex doc =
     CHR 0x22 # CHR ''v'' # showNat (version doc) @ CHR ''-'' #
       take 8 (md5hex (docId doc @ ''-'' @ showNat (version doc) @ ''-'' @ updatedAt doc)) @ [CHR 0x22]"
  by (simp add: generateETag_def substring_def Let_def min_def max_def)

lemma dash_not_digit: "\<not> isDigit (CHR ''-'')" and comma_not_digit: "\<not> isDigit (CHR '','')"
  and comma_not_hex: "\<not> isHexDigit (CHR '','')"
  by (simp_all add: isDigit_def isHexDigit_def)

lemma etag_no_comma:
  assumes "\<forall>s. \<forall>c \<in> set (md5hex s). isHexDigit c"
  shows "CHR '','' \<notin> set (generateETag md5hex doc)"
proof -
  have "CHR '','' \<notin> set (showNat (version doc))"
    using showNat_digits [of "version doc"] comma_not_digit by blast
  moreover have "CHR '','' \<notin> set (take 8 (md5hex x))" for x
    using assms comma_not_hex in_set_takeD [of "CHR '',''" 8 "md5hex x"] by blast
  ultimately show ?thesis by (simp add: etag_shape)
qed

lemma trim_quoted: "\<not> isWhiteSpace a \<Longrightarrow> \<not> isWhiteSpace b \<Longrightarrow> trim (a # xs @ [b]) = a # xs @ [b]"
  by (simp add: trim_def)

lemma quote_not_space: "\<not> isWhiteSpace (CHR 0x22)"
  by (simp add: isWhiteSpace_def)

lemma etag_requested:
  assumes "\<forall>s. \<forall>c \<in> set (md5hex s). isHexDigit c"
  shows "map trim (splitOn (CHR '','') [] (generateETag md5hex doc)) = [generateETag md5hex doc]"
proof -
  have "splitOn (CHR '','') [] (generateETag md5hex doc) = [generateETag md5hex doc]"
    using splitOn_absent [OF etag_no_comma [OF assms], of "[]" doc] by simp
  moreover have "trim (generateETag md5hex doc) = generateETag md5hex doc"
    unfolding etag_shape
    using trim_quoted [OF quote_not_space quote_not_space,
        of "CHR ''v'' # showNat (version doc) @ CHR ''-'' #
          take 8 (md5hex (docId doc @ ''-'' @ showNat (version doc) @ ''-'' @ updatedAt doc))"]
    by simp
  ultimately show ?thesis by simp
qed

lemma etag_stripWeak: "stripWeak (generateETag md5hex doc) = generateETag md5hex doc"
  by (simp add: stripWeak_def etag_shape)

lemma etag_not_special: "generateETag md5hex doc \<noteq> [] \<and> generateETag md5hex doc \<noteq> ''*''"
  by (simp add: etag_shape)

lemma validateIfMatch_own_token:
  assumes "\<forall>s. \<forall>c \<in> set (md5hex s). isHexDigit c"
  shows "validateIfMatch md5hex (Some (generateETag md5hex doc)) doc' \<longleftrightarrow>
     generateETag md5hex doc = generateETag md5hex doc'"
  using etag_not_special [of md5hex doc]
  by (simp add: validateIfMatch_def etag_requested [OF assms] etag_stripWeak)

lemma etag_version:
  assumes "generateETag md5hex doc = generateETag md5hex doc'"
  shows "version doc = version doc'"
proof -
  define r where "r = take 8 (md5hex (docId doc @ ''-'' @ showNat (version doc) @ ''-'' @ updatedAt doc)) @ [CHR 0x22]"
  define r' where "r' = take 8 (md5hex (docId doc' @ ''-'' @ showNat (version doc') @ ''-'' @ updatedAt doc')) @ [CHR 0x22]"
  have "generateETag md5hex doc = CHR 0x22 # CHR ''v'' # (showNat (version doc) @ CHR ''-'' # r)"
    by (simp add: etag_shape r_def)
  moreover have "generateETag md5hex doc' = CHR 0x22 # CHR ''v'' # (showNat (version doc') @ CHR ''-'' # r')"
    by (simp add: etag_shape r'_def)
  ultimately have eq: "showNat (version doc) @ CHR ''-'' # r = showNat (version doc') @ CHR ''-'' # r'"
    using assms by (simp only: list.inject)
  have "CHR ''-'' \<notin> set (showNat n)" for n
    using showNat_digits [of n] dash_not_digit by blast
  from append_sep_eq [OF eq this this] show ?thesis by (rule showNat_inj)
qed

subsection \<open>The example stores\<close>

lemma words_hello: "extractWords ''hello world today'' = [''hello'', ''world'', ''today'']"
  by (simp add: extractWords_def toLowerCase_def toLowerCaseUnit_def isWordChar_def isWhiteSpace_def)

lemma words_a: "extractWords ''a'' = [''a'']"
  by (simp add: extractWords_def toLowerCase_def toLowerCaseUnit_def isWordChar_def isWhiteSpace_def)

lemma count_hello: "countWords ''hello world today'' = 3"
  by (simp add: countWords_def words_hello)

lemma length_hello: "length ''hello world today'' = 17"
  by simp

lemma one_documents: "documents oneDocStore = [''d1'' \<mapsto> firstDoc]"
  by (simp add: oneDocStore_def createDocument_def plainInput_def emptyStore_def Let_def
      firstDoc_def count_hello)
    (simp add: eval_nat_numeral)

lemma one_index: "wordIndex oneDocStore =
    [''a'' \<mapsto> [''d1''], ''hello'' \<mapsto> [''d1''], ''world'' \<mapsto> [''d1''], ''today'' \<mapsto> [''d1'']]"
  by (simp add: oneDocStore_def createDocument_def plainInput_def emptyStore_def
      indexDocument_def docWords_def newSet_def setAdd_def words_hello words_a Let_def)

lemma words_second: "extractWords ''hello universe tomorrow'' = [''hello'', ''universe'', ''tomorrow'']"
  by (simp add: extractWords_def toLowerCase_def toLowerCaseUnit_def isWordChar_def isWhiteSpace_def)

lemma words_third: "extractWords ''goodbye world yesterday'' = [''goodbye'', ''world'', ''yesterday'']"
  by (simp add: extractWords_def toLowerCase_def toLowerCaseUnit_def isWordChar_def isWhiteSpace_def)

lemma words_b: "extractWords ''b'' = [''b'']" and words_c: "extractWords ''c'' = [''c'']"
  by (simp_all add: extractWords_def toLowerCase_def toLowerCaseUnit_def isWordChar_def isWhiteSpace_def)

lemma three_documents:
  "documents threeDocStore = [''d1'' \<mapsto> firstDoc, ''d2'' \<mapsto> secondDoc, ''d3'' \<mapsto> thirdDoc]"
  by (simp add: threeDocStore_def createDocument_def plainInput_def Let_def one_documents
      secondDoc_def thirdDoc_def countWords_def words_second words_third)
    (simp add: eval_nat_numeral)

lemma three_index:
  "wordIndex threeDocStore ''hello'' = Some [''d1'', ''d2''] \<and>
   wordIndex threeDocStore ''world'' = Some [''d1'', ''d3''] \<and>
   wordIndex threeDocStore ''zebra'' = None"
  by (simp add: threeDocStore_def createDocument_def plainInput_def Let_def one_index
      indexDocument_def docWords_def newSet_def setAdd_def
      words_second words_third words_b words_c)

lemma lower_words:
  "toLowerCase ''hello'' = ''hello''" "toLowerCase ''world'' = ''world''"
  "toLowerCase ''zebra'' = ''zebra''"
  by (simp_all add: toLowerCase_def toLowerCaseUnit_def)

lemma three_lookup:
  "findDocumentsByWord threeDocStore ''hello'' = [''d1'', ''d2''] \<and>
   findDocumentsByWord threeDocStore ''world'' = [''d1'', ''d3''] \<and>
   findDocumentsByWord threeDocStore ''zebra'' = []"
  by (simp add: findDocumentsByWord_def lower_words three_index)

lemma three_both:
  "findDocumentsByWords threeDocStore [''hello'', ''world''] = [''d1'']"
  by (simp add: findDocumentsByWords_def List.map_filter_def lower_words three_index)

lemma query_words: "extractWords ''hello world'' = [''hello'', ''world'']"
  by (simp add: extractWords_def toLowerCase_def toLowerCaseUnit_def isWordChar_def isWhiteSpace_def)

lemma three_candidates:
  "getCandidateDocuments threeDocStore ''hello world'' None = [firstDoc]"
  by (simp add: getCandidateDocuments_def query_words three_both getDocumentsByIds_def
      List.map_filter_def three_documents)

lemma scan_first:
  "searchInDocument firstDoc
      \<lparr>source = map Lit ''hello world'', ignoreCase = True, global = True\<rparr> 50 100 [] =
     [\<lparr>documentId = ''d1'', documentTitle = ''a'', position = 0,
       matchContext = ''hello world today'', matchedText = ''hello world''\<rparr>]"
  by (simp add: searchInDocument_def searchInDocument_loop.simps regExpExec.simps firstDoc_def
      unitEq_def canonicalize_def extractContext_def slice_def sliceEnd_def toInteger_def
      substring_def Let_def)

lemma scan_first_limited:
  "searchInDocument firstDoc
      \<lparr>source = map Lit ''o'', ignoreCase = False, global = True\<rparr> 50 (3 / 2) [] =
     [\<lparr>documentId = ''d1'', documentTitle = ''a'', position = 4,
       matchContext = ''hello world today'', matchedText = ''o''\<rparr>,
      \<lparr>documentId = ''d1'', documentTitle = ''a'', position = 7,
       matchContext = ''hello world today'', matchedText = ''o''\<rparr>]"
  by (simp add: searchInDocument_def searchInDocument_loop.simps regExpExec.simps firstDoc_def
      unitEq_def canonicalize_def extractContext_def slice_def sliceEnd_def toInteger_def
      substring_def Let_def)

section \<open>Claims about the store, the token and the search\<close>

text \<open>
  C2. The index is exact in the empty store, and every operation of the store keeps it
  exact: after \<open>createDocument\<close> (with an id that is not yet in use), \<open>updateDocument\<close>,
  \<open>patchDocument\<close> and \<open>deleteDocument\<close>, an id is in the posting set of a term exactly
  when it is the id of a stored document whose title or content has the term as a
  normalized word, and no term with an empty posting set is a key of the index.
\<close>

theorem index_stays_exact:
  "wellFormed emptyStore \<and> indexExact emptyStore \<and>
   (wellFormed st \<and> indexExact st \<longrightarrow>
      (documents st uuid = None \<longrightarrow>
         wellFormed (snd (createDocument uuid now input st)) \<and>
         indexExact (snd (createDocument uuid now input st))) \<and>
      wellFormed (snd (updateDocument ident updates now st)) \<and>
      indexExact (snd (updateDocument ident updates now st)) \<and>
      wellFormed (snd (patchDocument ident patch now st)) \<and>
      indexExact (snd (patchDocument ident patch now st)) \<and>
      wellFormed (snd (deleteDocument ident st)) \<and>
      indexExact (snd (deleteDocument ident st)))"
  using storeInv_empty storeInv_createDocument [of st uuid now input]
    storeInv_updateDocument [of st ident updates now]
    storeInv_patchDocument [of st ident patch now]
    storeInv_deleteDocument [of st ident]
  unfolding storeInv_def by blast

theorem index_stays_exact_witness:
  "wellFormed oneDocStore \<and> indexExact oneDocStore \<and>
   wordIndex oneDocStore ''hello'' = Some [''d1''] \<and>
   wellFormed (snd (deleteDocument ''d1'' oneDocStore)) \<and>
   indexExact (snd (deleteDocument ''d1'' oneDocStore)) \<and>
   wordIndex (snd (deleteDocument ''d1'' oneDocStore)) ''hello'' = None"
proof -
  have fresh: "documents emptyStore ''d1'' = None"
    by (simp add: emptyStore_def)
  have one: "wellFormed oneDocStore \<and> indexExact oneDocStore"
    using index_stays_exact [of emptyStore "''d1''" "''t1''" "plainInput ''a'' ''hello world today''"]
      fresh
    unfolding oneDocStore_def by blast
  have gone: "wellFormed (snd (deleteDocument ''d1'' oneDocStore)) \<and>
      indexExact (snd (deleteDocument ''d1'' oneDocStore))"
    using index_stays_exact [of oneDocStore _ _ _ "''d1''"] one by blast
  have "wordIndex (snd (deleteDocument ''d1'' oneDocStore)) ''hello'' = None"
    by (simp add: deleteDocument_def one_documents one_index removeFromIndex_def docWords_def
        newSet_def setDelete_def firstDoc_def words_hello words_a)
  with one gone show ?thesis by (simp add: one_index)
qed

text \<open>
  C3. When the digest is written in hexadecimal digits, the token of a document validates
  against that document, and it does not validate against any document whose version is
  one higher.
\<close>

theorem etag_round_trip:
  assumes "\<forall>s. \<forall>c \<in> set (md5hex s). isHexDigit c"
  shows "validateIfMatch md5hex (Some (generateETag md5hex doc)) doc \<and>
         (version doc' = version doc + 1 \<longrightarrow>
            \<not> validateIfMatch md5hex (Some (generateETag md5hex doc)) doc')"
  using etag_version [of md5hex doc doc']
  by (auto simp: validateIfMatch_own_token [OF assms])

theorem etag_round_trip_witness:
  "generateETag exampleDigest firstDoc = [CHR 0x22] @ ''v1-d41d8cd9'' @ [CHR 0x22] \<and>
   validateIfMatch exampleDigest (Some (generateETag exampleDigest firstDoc)) firstDoc \<and>
   \<not> validateIfMatch exampleDigest (Some (generateETag exampleDigest firstDoc))
       (firstDoc\<lparr>updatedAt := ''t2'', version := 2\<rparr>)"
proof -
  have hex: "\<forall>s. \<forall>c \<in> set (exampleDigest s). isHexDigit c"
    by (simp add: exampleDigest_def isHexDigit_def)
  have next_version: "version (firstDoc\<lparr>updatedAt := ''t2'', version := 2\<rparr>) = version firstDoc + 1"
    by (simp add: firstDoc_def)
  have token: "generateETag exampleDigest firstDoc = [CHR 0x22] @ ''v1-d41d8cd9'' @ [CHR 0x22]"
    by (simp add: etag_shape firstDoc_def exampleDigest_def showNat.simps)
  from etag_round_trip [OF hex, of firstDoc "firstDoc\<lparr>updatedAt := ''t2'', version := 2\<rparr>"]
    next_version token
  show ?thesis by blast
qed

text \<open>
  C5, as stated, at an empty list of ids: the store holds one document with the word
  \<open>hello\<close>, the list of ids names no document, and the candidates of the query \<open>hello\<close>
  are that one document, found through the index.
\<close>

theorem empty_documentIds_uses_index: "getCandidateDocuments oneDocStore ''hello'' (Some []) = [firstDoc] \<and>
   getDocumentsByIds oneDocStore [] = []"
  by (simp add: getCandidateDocuments_def getDocumentsByIds_def findDocumentsByWord_def
      List.map_filter_def one_documents one_index extractWords_def toLowerCase_def
      toLowerCaseUnit_def isWordChar_def isWhiteSpace_def)

text \<open>
  C5, amended. When \<open>documentIds\<close> is supplied and not empty, the candidates are exactly
  the stored documents that the ids name, in the order of the ids, and they do not depend
  on the index. An empty list of ids is treated as an absent one.
\<close>

theorem candidates_from_documentIds:
  "(ids \<noteq> [] \<longrightarrow>
      getCandidateDocuments st q (Some ids) = getDocumentsByIds st ids \<and>
      getCandidateDocuments (st\<lparr>wordIndex := wi\<rparr>) q (Some ids) = getCandidateDocuments st q (Some ids)) \<and>
   getCandidateDocuments st q (Some []) = getCandidateDocuments st q None"
  by (simp add: getCandidateDocuments_def getDocumentsByIds_def)

theorem candidates_from_documentIds_witness:
  "getCandidateDocuments oneDocStore ''zebra'' (Some [''d1'', ''d9'']) = [firstDoc] \<and>
   getCandidateDocuments oneDocStore ''zebra'' None = []"
proof -
  have "getDocumentsByIds oneDocStore [''d1'', ''d9''] = [firstDoc]"
    by (simp add: getDocumentsByIds_def List.map_filter_def one_documents)
  moreover have "getCandidateDocuments oneDocStore ''zebra'' None = []"
    by (simp add: getCandidateDocuments_def findDocumentsByWord_def one_index
        extractWords_def toLowerCase_def toLowerCaseUnit_def isWordChar_def isWhiteSpace_def)
  ultimately show ?thesis
    using candidates_from_documentIds [of "[''d1'', ''d9'']" oneDocStore "''zebra''"]
    by simp
qed

text \<open>
  C7. \<open>findDocumentsByWords\<close> of no word is empty; of one word it is the lookup of that
  word; of two words it is within the result for each of them; and it is empty for every
  list that holds a word without postings.
\<close>

theorem findDocumentsByWords_algebra:
  "findDocumentsByWords st [] = [] \<and>
   findDocumentsByWords st [w] = findDocumentsByWord st w \<and>
   set (findDocumentsByWords st [w1, w2]) \<subseteq> set (findDocumentsByWords st [w1]) \<and>
   set (findDocumentsByWords st [w1, w2]) \<subseteq> set (findDocumentsByWords st [w2]) \<and>
   (\<forall>v vs. v \<in> set vs \<and> findDocumentsByWord st v = [] \<longrightarrow> findDocumentsByWords st vs = [])"
proof (intro conjI allI impI)
  show "findDocumentsByWords st [] = []"
    by (simp add: findDocumentsByWords_def)
  show one: "findDocumentsByWords st [x] = findDocumentsByWord st x" for x
    by (simp add: findDocumentsByWords_def)
  show "set (findDocumentsByWords st [w1, w2]) \<subseteq> set (findDocumentsByWords st [w1])"
    unfolding one using words_two_subset [of st w1 w2] by blast
  show "set (findDocumentsByWords st [w1, w2]) \<subseteq> set (findDocumentsByWords st [w2])"
    unfolding one using words_two_subset [of st w1 w2] by blast
  show "findDocumentsByWords st vs = []"
    if "v \<in> set vs \<and> findDocumentsByWord st v = []" for v vs
    using that words_short_circuit [of v vs st] by blast
qed

theorem findDocumentsByWords_algebra_witness:
  "findDocumentsByWords threeDocStore [''hello'', ''world'', ''zebra''] = [] \<and>
   findDocumentsByWords threeDocStore [''hello'', ''world''] = [''d1''] \<and>
   findDocumentsByWords threeDocStore [''hello''] = [''d1'', ''d2''] \<and>
   findDocumentsByWords threeDocStore [''world''] = [''d1'', ''d3'']"
proof -
  have none: "findDocumentsByWord threeDocStore ''zebra'' = []"
    using three_lookup by simp
  have short: "v \<in> set vs \<and> findDocumentsByWord threeDocStore v = [] \<longrightarrow>
      findDocumentsByWords threeDocStore vs = []" for v vs
    using findDocumentsByWords_algebra [of threeDocStore] by blast
  have "findDocumentsByWords threeDocStore [''hello'', ''world'', ''zebra''] = []"
    using short [of "''zebra''" "[''hello'', ''world'', ''zebra'']"] none by simp
  moreover have "findDocumentsByWords threeDocStore [''hello''] = [''d1'', ''d2'']"
    and "findDocumentsByWords threeDocStore [''world''] = [''d1'', ''d3'']"
    using findDocumentsByWords_algebra [of threeDocStore "''hello''"]
      findDocumentsByWords_algebra [of threeDocStore "''world''"] three_lookup
    by simp_all
  ultimately show ?thesis using three_both by simp
qed

text \<open>
  C8, as stated, at a limit that is not a whole number: with \<open>maxResults = 1.5\<close> the test
  \<open>results.length >= maxResults\<close> first holds at two results, and two come back.
\<close>

theorem fractional_maxResults_exceeded:
  "search oneDocStore
     \<lparr>query = ''o'', documentIds = Some [''d1''], caseSensitive = Some True,
      contextSize = None, maxResults = Some (3 / 2)\<rparr> =
     Some \<lparr>query_res = ''o'', totalMatches = 2, documentsSearched = 1,
       results = [\<lparr>documentId = ''d1'', documentTitle = ''a'', position = 4,
                   matchContext = ''hello world today'', matchedText = ''o''\<rparr>,
                  \<lparr>documentId = ''d1'', documentTitle = ''a'', position = 7,
                   matchContext = ''hello world today'', matchedText = ''o''\<rparr>]\<rparr> \<and>
   \<not> (2 :: real) \<le> 3 / 2"
  by (simp add: search_def newRegExp_escaped getCandidateDocuments_def getDocumentsByIds_def
      List.map_filter_def one_documents scan_first_limited [simplified] Let_def)

text \<open>
  C8, amended. Every search returns a response whose list of results holds at most
  \<open>maxResults\<close> rounded up to a whole number, and none when \<open>maxResults\<close> is zero or less; so
  it holds at most \<open>maxResults\<close> matches when that is a whole number that is not negative,
  and at most 100 when it is not given. \<open>totalMatches\<close> is the length of the list of results,
  and \<open>documentsSearched\<close> is the number of candidate documents, those that the index or the
  supplied ids select.
\<close>

theorem search_bounds:
  "\<exists>r. search st q = Some r \<and>
     int (length (results r)) \<le> max 0 \<lceil>case maxResults q of None \<Rightarrow> 100 | Some n \<Rightarrow> n\<rceil> \<and>
     (\<forall>n. maxResults q = Some (real n) \<longrightarrow> length (results r) \<le> n) \<and>
     (maxResults q = None \<longrightarrow> length (results r) \<le> 100) \<and>
     totalMatches r = length (results r) \<and>
     documentsSearched r = length (getCandidateDocuments st (query q) (documentIds q))"
proof -
  let ?limit = "case maxResults q of None \<Rightarrow> 100 | Some n \<Rightarrow> n"
  let ?found = "searchLoop (getCandidateDocuments st (query q) (documentIds q))
      \<lparr>source = map Lit (query q),
        ignoreCase = (CHR ''i'' \<in> set (if (case caseSensitive q of None \<Rightarrow> False | Some b \<Rightarrow> b)
                       then ''g'' else ''gi'')),
        global = (CHR ''g'' \<in> set (if (case caseSensitive q of None \<Rightarrow> False | Some b \<Rightarrow> b)
                       then ''g'' else ''gi''))\<rparr>
      (case contextSize q of None \<Rightarrow> 50 | Some n \<Rightarrow> n) ?limit []"
  have response: "search st q =
      Some \<lparr>query_res = query q, totalMatches = length ?found,
            documentsSearched = length (getCandidateDocuments st (query q) (documentIds q)),
            results = ?found\<rparr>"
    by (simp add: search_def Let_def newRegExp_escaped)
  have bound: "length ?found \<le> nat \<lceil>?limit\<rceil>"
    using searchLoop_bound [of _ _ _ ?limit "[]"] by simp
  then have general: "int (length ?found) \<le> max 0 \<lceil>?limit\<rceil>" by linarith
  have whole: "length ?found \<le> n" if "maxResults q = Some (real n)" for n
    using bound that by simp
  have absent: "length ?found \<le> 100" if "maxResults q = None"
    using bound that by simp
  show ?thesis
    unfolding response using general whole absent by simp
qed

text \<open>The scenario of the specification: of three stored documents, the query
  \<open>hello world\<close> scans one.\<close>

theorem search_bounds_witness:
  "search threeDocStore (plainQuery ''hello world'') =
     Some \<lparr>query_res = ''hello world'', totalMatches = 1, documentsSearched = 1,
       results = [\<lparr>documentId = ''d1'', documentTitle = ''a'', position = 0,
                   matchContext = ''hello world today'', matchedText = ''hello world''\<rparr>]\<rparr>"
  using search_bounds [of threeDocStore "plainQuery ''hello world''"]
  by (simp add: search_def plainQuery_def newRegExp_escaped three_candidates
      scan_first [simplified] Let_def)

text \<open>
  C10. For a stored document, a patch that supplies no field returns the document with
  its version raised by one and \<open>updatedAt\<close> set to the clock reading of the call; the id,
  the title, the content, the author, the tags, the two counts and \<open>createdAt\<close> are as
  before, the index is as before, and the store holds the returned document under the id.
\<close>

theorem empty_patch_bumps_version:
  "documents st ident = Some doc \<longrightarrow>
     (\<exists>doc' st'. patchDocument ident emptyPatch now st
         = (Some doc', st') \<and>
       version doc' = version doc + 1 \<and> updatedAt doc' = now \<and>
       docId doc' = docId doc \<and> title doc' = title doc \<and> content doc' = content doc \<and>
       author (metadata doc') = author (metadata doc) \<and> tags (metadata doc') = tags (metadata doc) \<and>
       wordCount (metadata doc') = wordCount (metadata doc) \<and>
       characterCount (metadata doc') = characterCount (metadata doc) \<and>
       createdAt doc' = createdAt doc \<and>
       wordIndex st' = wordIndex st \<and>
       documents st' = (documents st)(ident \<mapsto> doc'))"
  by (simp add: patchDocument_stored patched_def emptyPatch_def)

theorem empty_patch_bumps_version_witness:
  "patchDocument ''d1'' emptyPatch ''t2'' oneDocStore =
     (Some (firstDoc\<lparr>updatedAt := ''t2'', version := 2\<rparr>),
      \<lparr>documents = [''d1'' \<mapsto> firstDoc\<lparr>updatedAt := ''t2'', version := 2\<rparr>],
       wordIndex = wordIndex oneDocStore\<rparr>)"
proof -
  have stored: "documents oneDocStore ''d1'' = Some firstDoc"
    by (simp add: one_documents)
  from empty_patch_bumps_version [of oneDocStore "''d1''" firstDoc "''t2''"] stored
  show ?thesis
    by (simp add: patchDocument_stored [OF stored] patched_def emptyPatch_def one_documents
        firstDoc_def)
      (simp add: numeral_2_eq_2)
qed

end
